theory Spec2Isabelle
  imports Main "HOL-Library.Word" "HOL-Library.Signed_Division"
begin

unbundle bit_operations_syntax

section \<open>Memory, constants and loops of ligraUtils.h\<close>

text \<open>
  A memory region is a total function from element addresses to values; a C pointer into
  the region is an \<open>int\<close> address, and \<open>p[i]\<close> is the cell \<open>p + i\<close>. Two pointers alias
  when the address ranges they are used on overlap. The template integer type \<open>intT\<close> is
  a signed type, modelled as \<open>int\<close>: the index ranges considered are far below the width
  of \<open>long\<close>. Fixed widths are kept where a result depends on them: the packed flag count
  works on \<open>32 word\<close>, the deduplication on keys of a machine word type.
\<close>

type_synonym 'a mem = "int \<Rightarrow> 'a"

text \<open>
  \<open>newA(E, n)\<close> is \<open>malloc\<close>: a fresh region, disjoint from every other one, whose
  contents are indeterminate. It is a region of its own, addressed from 0.
\<close>

definition newA :: "int \<Rightarrow> 'a mem" where
  "newA n = (\<lambda>_. undefined)"

definition addF :: "'a::plus \<Rightarrow> 'a \<Rightarrow> 'a" where
  "addF a b = a + b"

definition SCAN_LOG_BSIZE :: nat where
  "SCAN_LOG_BSIZE = 10"

definition SCAN_BSIZE :: int where
  "SCAN_BSIZE = push_bit SCAN_LOG_BSIZE 1"

definition F_BSIZE :: int where
  "F_BSIZE = 2 * SCAN_BSIZE"

text \<open>
  The macro \<open>nblocks\<close> at a signed \<open>intT\<close>; C division truncates towards zero, hence
  \<open>sdiv\<close>.
\<close>

definition nblocks :: "int \<Rightarrow> int \<Rightarrow> int" where
  "nblocks n bsize = 1 + (n - 1) sdiv bsize"


text \<open>\<open>for (i = s; i < e; i++) body\<close>, the loop state passed through the body.\<close>

function for_loop :: "int \<Rightarrow> int \<Rightarrow> (int \<Rightarrow> 'st \<Rightarrow> 'st) \<Rightarrow> 'st \<Rightarrow> 'st" where
  "for_loop i e body st = (if i < e then for_loop (i + 1) e body (body i st) else st)"
  by pat_completeness auto
termination
  by (relation "measure (\<lambda>(i, e, body, st). nat (e - i))") auto

text \<open>\<open>i = e; while (i > s) { i--; body }\<close>.\<close>

function down_loop :: "int \<Rightarrow> int \<Rightarrow> (int \<Rightarrow> 'st \<Rightarrow> 'st) \<Rightarrow> 'st \<Rightarrow> 'st" where
  "down_loop i s body st = (if i > s then down_loop (i - 1) s body (body (i - 1) st) else st)"
  by pat_completeness auto
termination
  by (relation "measure (\<lambda>(i, s, body, st). nat (i - s))") auto

text \<open>
  Modelled from the spec: \<open>parallel_for\<close> is declared in \<open>parallel.h\<close>, which is not among the
  sources. It executes the body for every index of the range, in no specified order, and
  returns when every iteration is done (the implicit join). For the loops of reduce, scan
  and pack, whose iterations write cells of their own and read none that another iteration
  writes, the iterations run here in increasing index order.
\<close>

definition parallel_for :: "int \<Rightarrow> int \<Rightarrow> (int \<Rightarrow> 'st \<Rightarrow> 'st) \<Rightarrow> 'st \<Rightarrow> 'st" where
  "parallel_for lo hi body st = for_loop lo hi body st"

text \<open>The macro \<open>blocked_for\<close>: the body sees the block number and the block's bounds.\<close>

definition blocked_for ::
  "int \<Rightarrow> int \<Rightarrow> int \<Rightarrow> (int \<Rightarrow> int \<Rightarrow> int \<Rightarrow> 'st \<Rightarrow> 'st) \<Rightarrow> 'st \<Rightarrow> 'st" where
  "blocked_for ss ee bsize body st =
     (let n = ee - ss;
          l = nblocks n bsize
      in parallel_for 0 l
           (\<lambda>i st. let s = ss + i * bsize; e = min (s + bsize) ee in body i s e st) st)"

text \<open>
  The accessor \<open>getA<ET,intT>(A)\<close> holds the pointer \<open>A\<close> and reads \<open>A[i]\<close> from the
  memory as it is at the moment of the call.
\<close>

definition getA :: "int \<Rightarrow> 'a mem \<Rightarrow> int \<Rightarrow> 'a" where
  "getA A m i = m (A + i)"

text \<open>Which branch of an operation a range takes.\<close>

datatype route = Serial | Blocked

section \<open>Reduce\<close>

definition reduceSerial :: "int \<Rightarrow> int \<Rightarrow> ('a \<Rightarrow> 'a \<Rightarrow> 'a) \<Rightarrow> (int \<Rightarrow> 'a) \<Rightarrow> 'a" where
  "reduceSerial s e f g = (let r = g s in for_loop (s + 1) e (\<lambda>j r. f r (g j)) r)"

definition reduce_route :: "int \<Rightarrow> route" where
  "reduce_route l = (if l \<le> 1 then Serial else Blocked)"

function reduce :: "int \<Rightarrow> int \<Rightarrow> ('a \<Rightarrow> 'a \<Rightarrow> 'a) \<Rightarrow> (int \<Rightarrow> 'a) \<Rightarrow> 'a" where
  "reduce s e f g =
     (let l = nblocks (e - s) SCAN_BSIZE in
      case reduce_route l of
        Serial \<Rightarrow> reduceSerial s e f g
      | Blocked \<Rightarrow>
          let Sums = newA l;
              Sums = blocked_for s e SCAN_BSIZE (\<lambda>i s e Sums. Sums(i := reduceSerial s e f g)) Sums;
              r = reduce 0 l f (getA 0 Sums)
          in r)"
  by pat_completeness auto
termination
proof (relation "measure (\<lambda>(s, e, f, g). nat (e - s))", goal_cases)
  case 1
  show ?case by simp
next
  case 2
  then show ?case
    by (auto simp: reduce_route_def nblocks_def SCAN_BSIZE_def SCAN_LOG_BSIZE_def
        signed_divide_int_def sgn_if split: if_splits)
qed

text \<open>The overload \<open>reduce(A, n, f)\<close> on an array \<open>A\<close> of the memory \<open>m\<close>.\<close>

definition reduce_arr :: "'a mem \<Rightarrow> int \<Rightarrow> int \<Rightarrow> ('a \<Rightarrow> 'a \<Rightarrow> 'a) \<Rightarrow> 'a" where
  "reduce_arr m A n f = reduce 0 n f (getA A m)"

section \<open>Scan\<close>

text \<open>
  \<open>scanSerial\<close> writes through \<open>Out\<close> into the memory \<open>m\<close> and returns the memory with
  the final running value. The accessor \<open>g\<close> is evaluated against the current memory, so
  that an accessor reading the destination itself (\<open>In == Out\<close>) sees the writes.
\<close>

definition scanSerial ::
  "'a mem \<Rightarrow> int \<Rightarrow> int \<Rightarrow> int \<Rightarrow> ('a \<Rightarrow> 'a \<Rightarrow> 'a) \<Rightarrow> ('a mem \<Rightarrow> int \<Rightarrow> 'a) \<Rightarrow> 'a \<Rightarrow> bool \<Rightarrow> bool
     \<Rightarrow> 'a mem \<times> 'a" where
  "scanSerial m Out s e f g zero inclusive back =
     (let r = zero in
      if inclusive then
        if back then
          down_loop e s (\<lambda>i (m, r). let r = f r (g m i) in (m(Out + i := r), r)) (m, r)
        else
          for_loop s e (\<lambda>i (m, r). let r = f r (g m i) in (m(Out + i := r), r)) (m, r)
      else
        if back then
          down_loop e s
            (\<lambda>i (m, r). let t = g m i; m = m(Out + i := r); r = f r t in (m, r)) (m, r)
        else
          for_loop s e
            (\<lambda>i (m, r). let t = g m i; m = m(Out + i := r); r = f r t in (m, r)) (m, r))"

definition scan_route :: "int \<Rightarrow> route" where
  "scan_route l = (if l \<le> 2 then Serial else Blocked)"

function scan ::
  "'a mem \<Rightarrow> int \<Rightarrow> int \<Rightarrow> int \<Rightarrow> ('a \<Rightarrow> 'a \<Rightarrow> 'a) \<Rightarrow> ('a mem \<Rightarrow> int \<Rightarrow> 'a) \<Rightarrow> 'a \<Rightarrow> bool \<Rightarrow> bool
     \<Rightarrow> 'a mem \<times> 'a" where
  "scan m Out s e f g zero inclusive back =
     (let n = e - s;
          l = nblocks n SCAN_BSIZE in
      case scan_route l of
        Serial \<Rightarrow> scanSerial m Out s e f g zero inclusive back
      | Blocked \<Rightarrow>
          let Sums = newA (nblocks n SCAN_BSIZE);
              Sums = blocked_for s e SCAN_BSIZE
                       (\<lambda>i s e Sums. Sums(i := reduceSerial s e f (g m))) Sums;
              (Sums, total) = scan Sums 0 0 l f (getA 0) zero False back;
              m = blocked_for s e SCAN_BSIZE
                    (\<lambda>i s e m. fst (scanSerial m Out s e f g (Sums i) inclusive back)) m
          in (m, total))"
  by pat_completeness auto
termination
proof (relation "measure (\<lambda>(m, Out, s, e, f, g, zero, inclusive, back). nat (e - s))",
    goal_cases)
  case 1
  show ?case by simp
next
  case 2
  then show ?case
    by (auto simp: scan_route_def nblocks_def SCAN_BSIZE_def SCAN_LOG_BSIZE_def
        signed_divide_int_def sgn_if split: if_splits)
qed

text \<open>The array overloads \<open>scan\<close>, \<open>scanI\<close>, \<open>scanBack\<close>, \<open>scanIBack\<close>, \<open>plusScan\<close>.\<close>

definition scan_arr ::
  "'a mem \<Rightarrow> int \<Rightarrow> int \<Rightarrow> int \<Rightarrow> ('a \<Rightarrow> 'a \<Rightarrow> 'a) \<Rightarrow> 'a \<Rightarrow> 'a mem \<times> 'a" where
  "scan_arr m In Out n f zero = scan m Out 0 n f (getA In) zero False False"

definition scanI ::
  "'a mem \<Rightarrow> int \<Rightarrow> int \<Rightarrow> int \<Rightarrow> ('a \<Rightarrow> 'a \<Rightarrow> 'a) \<Rightarrow> 'a \<Rightarrow> 'a mem \<times> 'a" where
  "scanI m In Out n f zero = scan m Out 0 n f (getA In) zero True False"

definition scanBack ::
  "'a mem \<Rightarrow> int \<Rightarrow> int \<Rightarrow> int \<Rightarrow> ('a \<Rightarrow> 'a \<Rightarrow> 'a) \<Rightarrow> 'a \<Rightarrow> 'a mem \<times> 'a" where
  "scanBack m In Out n f zero = scan m Out 0 n f (getA In) zero False True"

definition scanIBack ::
  "'a mem \<Rightarrow> int \<Rightarrow> int \<Rightarrow> int \<Rightarrow> ('a \<Rightarrow> 'a \<Rightarrow> 'a) \<Rightarrow> 'a \<Rightarrow> 'a mem \<times> 'a" where
  "scanIBack m In Out n f zero = scan m Out 0 n f (getA In) zero True True"

definition plusScan :: "'a::{plus,zero} mem \<Rightarrow> int \<Rightarrow> int \<Rightarrow> int \<Rightarrow> 'a mem \<times> 'a" where
  "plusScan m In Out n = scan m Out 0 n addF (getA In) 0 False False"

section \<open>Pack\<close>

text \<open>
  The flags live in a byte-addressed memory of \<open>bool\<close> (one byte each, holding 0 or 1);
  \<open>Fl\<close> is the address of the first flag. \<open>load_int\<close> is the read \<open>((int * )p)[0]\<close> of
  four consecutive flag bytes as one 32-bit integer, least significant byte first.
\<close>

definition load_int :: "bool mem \<Rightarrow> int \<Rightarrow> 32 word" where
  "load_int fm p =
     of_bool (fm p) + push_bit 8 (of_bool (fm (p + 1))) + push_bit 16 (of_bool (fm (p + 2)))
       + push_bit 24 (of_bool (fm (p + 3)))"

text \<open>
  \<open>rr\<close> is a C \<open>int\<close>: a \<open>32 word\<close> whose addition wraps and whose \<open>>>\<close> is the arithmetic
  shift; \<open>r += ...\<close> converts the signed result to \<open>intT\<close>. The pointer \<open>IFl\<close> is kept as a
  byte address, so \<open>IFl[j]\<close> is the load at \<open>IFl + 4 * j\<close> and \<open>IFl += 128\<close> adds 512.
  The diagnostic output to \<open>cout\<close> is not modelled.
\<close>

definition sumFlagsSerial :: "bool mem \<Rightarrow> int \<Rightarrow> int \<Rightarrow> int" where
  "sumFlagsSerial fm Fl n =
     (let r = 0 in
      if n \<ge> 128 \<and> n AND 511 = 0 \<and> Fl AND 3 = 0 then
        let IFl = Fl in
        snd (for_loop 0 (drop_bit 9 n)
          (\<lambda>k (IFl, r).
             let rr = 0;
                 rr = for_loop 0 128 (\<lambda>j rr. rr + load_int fm (IFl + 4 * j)) rr;
                 r = r + sint ((rr AND 255) + (signed_drop_bit 8 rr AND 255)
                               + (signed_drop_bit 16 rr AND 255)
                               + (signed_drop_bit 24 rr AND 255));
                 IFl = IFl + 4 * 128
             in (IFl, r))
          (IFl, r))
      else
        for_loop 0 n (\<lambda>j r. r + of_bool (fm (Fl + j))) r)"

text \<open>
  \<open>_seq<ET>\<close>: the pointer and the length. The pointer is an address in the memory that
  the operation returns with it; \<open>None\<close> is \<open>NULL\<close>.
\<close>

record seq =
  seq_A :: int
  seq_n :: int

definition packSerial ::
  "'a mem \<Rightarrow> int option \<Rightarrow> bool mem \<Rightarrow> int \<Rightarrow> int \<Rightarrow> int \<Rightarrow> (int \<Rightarrow> 'a) \<Rightarrow> 'a mem \<times> seq" where
  "packSerial m Out fm Fl s e f =
     (let (m, Out) =
            (case Out of
               None \<Rightarrow> (let m' = sumFlagsSerial fm (Fl + s) (e - s) in (newA m', 0))
             | Some p \<Rightarrow> (m, p));
          k = 0;
          (m, k) = for_loop s e
                     (\<lambda>i (m, k). if fm (Fl + i) then (m(Out + k := f i), k + 1) else (m, k))
                     (m, k)
      in (m, \<lparr>seq_A = Out, seq_n = k\<rparr>))"

definition pack_route :: "int \<Rightarrow> route" where
  "pack_route l = (if l \<le> 1 then Serial else Blocked)"

definition pack ::
  "'a mem \<Rightarrow> int option \<Rightarrow> bool mem \<Rightarrow> int \<Rightarrow> int \<Rightarrow> int \<Rightarrow> (int \<Rightarrow> 'a) \<Rightarrow> 'a mem \<times> seq" where
  "pack m Out fm Fl s e f =
     (let l = nblocks (e - s) F_BSIZE in
      case pack_route l of
        Serial \<Rightarrow> packSerial m Out fm Fl s e f
      | Blocked \<Rightarrow>
          let Sums = newA l;
              Sums = blocked_for s e F_BSIZE
                       (\<lambda>i s e Sums. Sums(i := sumFlagsSerial fm (Fl + s) (e - s))) Sums;
              (Sums, m') = plusScan Sums 0 0 l;
              (m, Out) = (case Out of None \<Rightarrow> (newA m', 0) | Some p \<Rightarrow> (m, p));
              m = blocked_for s e F_BSIZE
                    (\<lambda>i s e m. fst (packSerial m (Some (Out + Sums i)) fm Fl s e f)) m
          in (m, \<lparr>seq_A = Out, seq_n = m'\<rparr>))"

section \<open>Atomic primitives\<close>

text \<open>
  \<open>CAS\<close> on a cell of an element type of \<open>sz\<close> bytes. It returns the cell's new content
  with the success flag. For the widths 4 and 8 it is the compare-and-swap of the cell;
  any width other than 1, 4 and 8 is \<open>abort()\<close>. For the width 1 the pointer is cast to
  \<open>bool *\<close> and \<open>oldv\<close> and \<open>newv\<close> are read through \<open>bool *\<close>: the operation compares and
  stores truth values, and \<open>via_bool v\<close> is the byte a truth value read from \<open>v\<close> is stored
  as (0 for a zero byte, 1 for any other).
\<close>

datatype fault = Abort

definition via_bool :: "'a::{zero,one} \<Rightarrow> 'a" where
  "via_bool v = (if v = 0 then 0 else 1)"

definition CAS :: "nat \<Rightarrow> 'a::{zero,one} \<Rightarrow> 'a \<Rightarrow> 'a \<Rightarrow> fault + ('a \<times> bool)" where
  "CAS sz cell oldv newv =
     (if sz = 1 then
        (if via_bool cell = via_bool oldv then Inr (via_bool newv, True) else Inr (cell, False))
      else if sz = 4 then
        (if cell = oldv then Inr (newv, True) else Inr (cell, False))
      else if sz = 8 then
        (if cell = oldv then Inr (newv, True) else Inr (cell, False))
      else Inl Abort)"



section \<open>Deduplication\<close>

text \<open>
  Modelled from the spec: the declarations of \<open>uintE\<close> and \<open>UINT_E_MAX\<close> are not in this
  file. The key type is an unsigned machine integer of some width \<open>'w\<close>, and the sentinel
  is its maximum representable value.
\<close>

definition UINT_E_MAX :: "'w::len word" where
  "UINT_E_MAX = - 1"

definition sizeof_uintE :: "'w::len word \<Rightarrow> nat" where
  "sizeof_uintE k = LENGTH('w) div 8"

text \<open>
  Modelled from the spec: the iterations of the two \<open>parallel_for\<close> loops of \<open>remDuplicates\<close>
  race on the slots of \<open>flags\<close>, so the order in which the engine runs them is kept as a
  parameter of each loop: a list of the indices, each iteration one step.
\<close>

definition parallel_for_in :: "int list \<Rightarrow> (int \<Rightarrow> 'st \<Rightarrow> 'st) \<Rightarrow> 'st \<Rightarrow> 'st" where
  "parallel_for_in order body st = fold body order st"

text \<open>
  \<open>get_key\<close> gives the key field of entry \<open>i\<close> as an lvalue: a memory of keys. The state
  of the two phases is \<open>Inl Abort\<close> once \<open>CAS\<close> has aborted the process. The loop index is
  a \<open>size_t\<close>: \<open>static_cast<uintE>(i)\<close> is \<open>word_of_int i\<close>, which truncates, and
  \<open>flags[key] == i\<close> compares the slot, widened, with the index.

  In the first phase an iteration may have read its slot before another iteration claimed
  it. The slot held the sentinel then, so such an iteration (\<open>early i\<close>) goes on to its
  \<open>CAS\<close> whatever the slot holds by now, and the \<open>CAS\<close> fails when the slot is taken.
\<close>

definition remDuplicates ::
  "int list \<Rightarrow> (int \<Rightarrow> bool) \<Rightarrow> int list \<Rightarrow> 'w::len word mem \<Rightarrow> 'w word mem \<Rightarrow> int \<Rightarrow> int
     \<Rightarrow> fault + ('w word mem \<times> 'w word mem)" where
  "remDuplicates order1 early order2 get_key flags m n =
     (let st = parallel_for_in order1
            (\<lambda>i st. case st of
               Inl x \<Rightarrow> Inl x
             | Inr flags \<Rightarrow>
                 let key = get_key i in
                 if key \<noteq> UINT_E_MAX \<and> (early i \<or> flags (uint key) = UINT_E_MAX) then
                   (case CAS (sizeof_uintE key) (flags (uint key)) UINT_E_MAX (word_of_int i) of
                      Inl x \<Rightarrow> Inl x
                    | Inr (c, _) \<Rightarrow> Inr (flags(uint key := c)))
                 else Inr flags)
            (Inr flags)
      in case st of
           Inl x \<Rightarrow> Inl x
         | Inr flags \<Rightarrow>
             Inr (parallel_for_in order2
               (\<lambda>i (get_key, flags).
                  let key = get_key i in
                  if key \<noteq> UINT_E_MAX then
                    if uint (flags (uint key)) = i then (get_key, flags(uint key := UINT_E_MAX))
                    else (get_key(i := UINT_E_MAX), flags)
                  else (get_key, flags))
               (get_key, flags)))"

section \<open>Notions used to state the properties\<close>

text \<open>
  An accessor \<open>g\<close> is stable for a scan of \<open>[s, e)\<close> through \<open>Out\<close> when its value at an index
  \<open>i\<close> of the range does not change under writes to the destination cells of the other
  indices. An accessor that reads memory the scan does not write is stable, and so is the
  accessor of the destination itself (\<open>In == Out\<close>).
\<close>

definition stable :: "('a mem \<Rightarrow> int \<Rightarrow> 'a) \<Rightarrow> 'a mem \<Rightarrow> int \<Rightarrow> int \<Rightarrow> int \<Rightarrow> bool" where
  "stable g m Out s e \<longleftrightarrow>
     (\<forall>i m'. s \<le> i \<and> i < e \<and> (\<forall>a. m' a \<noteq> m a \<longrightarrow> Out + s \<le> a \<and> a < Out + e \<and> a \<noteq> Out + i)
        \<longrightarrow> g m' i = g m i)"

text \<open>
  The memory a forward scan of the values \<open>A s, ..., A (e - 1)\<close> is to leave: the running
  left-to-right fold in the destination cells, everything else as it was.
\<close>

definition scan_fwd_mem ::
  "'a mem \<Rightarrow> int \<Rightarrow> int \<Rightarrow> int \<Rightarrow> ('a \<Rightarrow> 'a \<Rightarrow> 'a) \<Rightarrow> (int \<Rightarrow> 'a) \<Rightarrow> 'a \<Rightarrow> bool \<Rightarrow> 'a mem" where
  "scan_fwd_mem m Out s e f A z inclusive =
     (\<lambda>a. if Out + s \<le> a \<and> a < Out + e
          then foldl f z (map A [s..a - Out - (if inclusive then 0 else 1)])
          else m a)"


text \<open>
  The memory a backward scan of the same values is to leave: in each destination cell the
  fold of \<open>z\<close> with the values to its right, taken from the high end down.
\<close>

definition scan_back_mem ::
  "'a mem \<Rightarrow> int \<Rightarrow> int \<Rightarrow> int \<Rightarrow> ('a \<Rightarrow> 'a \<Rightarrow> 'a) \<Rightarrow> (int \<Rightarrow> 'a) \<Rightarrow> 'a \<Rightarrow> bool \<Rightarrow> 'a mem" where
  "scan_back_mem m Out s e f A z inclusive =
     (\<lambda>a. if Out + s \<le> a \<and> a < Out + e
          then foldl f z (map A (rev [a - Out + (if inclusive then 0 else 1)..e - 1]))
          else m a)"


text \<open>
  The memory a pack is to leave: the list \<open>ys\<close> of the packed values from the address \<open>p\<close> on,
  everything else as it was.
\<close>

definition pack_mem :: "'a mem \<Rightarrow> int \<Rightarrow> 'a list \<Rightarrow> 'a mem" where
  "pack_mem m p ys = (\<lambda>a. if p \<le> a \<and> a < p + int (length ys) then ys ! nat (a - p) else m a)"


section \<open>Loops as folds\<close>

declare for_loop.simps [simp del] down_loop.simps [simp del] reduce.simps [simp del]
  scan.simps [simp del]

lemma for_loop_fold: "for_loop i e body st = fold body [i..e - 1] st"
proof (induction i e body st rule: for_loop.induct)
  case (1 i e body st)
  show ?case
  proof (cases "i < e")
    case True
    then have "[i..e - 1] = i # [i + 1..e - 1]"
      by (simp add: upto_rec1)
    with True 1 show ?thesis
      by (subst for_loop.simps) simp
  next
    case False
    then show ?thesis by (subst for_loop.simps) simp
  qed
qed

lemma SCAN_BSIZE_eq: "SCAN_BSIZE = 1024"
  by (simp add: SCAN_BSIZE_def SCAN_LOG_BSIZE_def)

lemma F_BSIZE_eq: "F_BSIZE = 2048"
  by (simp add: F_BSIZE_def SCAN_BSIZE_eq)

lemma nblocks_pos: "0 < n \<Longrightarrow> 0 < b \<Longrightarrow> nblocks n b = 1 + (n - 1) div b"
  by (simp add: nblocks_def signed_divide_int_def sgn_if)

lemma nblocks_nonpos: "n \<le> 0 \<Longrightarrow> 0 < b \<Longrightarrow> nblocks n b \<le> 1"
  by (auto simp add: nblocks_def signed_divide_int_def sgn_if div_eq_0_iff pos_imp_zdiv_nonneg_iff)


lemma for_loop_upd:
  "for_loop a b (\<lambda>i st. st(i := v i)) st = (\<lambda>i. if a \<le> i \<and> i < b then v i else st i)"
proof (induction a b "\<lambda>i (st :: int \<Rightarrow> 'a). st(i := v i)" st rule: for_loop.induct)
  case (1 i e st)
  show ?case
  proof (cases "i < e")
    case True
    with 1 show ?thesis
      by (subst for_loop.simps) (auto simp: fun_eq_iff)
  next
    case False
    then show ?thesis by (subst for_loop.simps) (auto simp: fun_eq_iff)
  qed
qed

lemma for_loop_rule_aux:
  "a \<le> i \<Longrightarrow> i \<le> e \<Longrightarrow> I i st \<Longrightarrow>
   (\<forall>j st. a \<le> j \<and> j < e \<and> I j st \<longrightarrow> I (j + 1) (body j st)) \<Longrightarrow>
   I e (for_loop i e body st)"
proof (induction i e body st rule: for_loop.induct)
  case (1 i e body st)
  show ?case
  proof (cases "i < e")
    case True
    have "I (i + 1) (body i st)"
      using 1(2-) True by blast
    then have "I e (for_loop (i + 1) e body (body i st))"
      using 1 True by simp
    then show ?thesis using True by (subst for_loop.simps) simp
  next
    case False
    with 1 show ?thesis by (subst for_loop.simps) simp
  qed
qed

lemma for_loop_rule:
  assumes "a \<le> b" and "I a st"
    and "\<And>i st. a \<le> i \<Longrightarrow> i < b \<Longrightarrow> I i st \<Longrightarrow> I (i + 1) (body i st)"
  shows "I b (for_loop a b body st)"
  using for_loop_rule_aux[of a a b I st body] assms by blast

lemma down_loop_rule_aux:
  "a \<le> i \<Longrightarrow> i \<le> b \<Longrightarrow> I i st \<Longrightarrow>
   (\<forall>j st. a \<le> j \<and> j < b \<and> I (j + 1) st \<longrightarrow> I j (body j st)) \<Longrightarrow>
   I a (down_loop i a body st)"
proof (induction i a body st rule: down_loop.induct)
  case (1 i s body st)
  show ?case
  proof (cases "i > s")
    case True
    have "I (i - 1) (body (i - 1) st)"
      using 1(2-) True by (auto dest!: spec[of _ "i - 1"])
    then have "I s (down_loop (i - 1) s body (body (i - 1) st))"
      using 1 True by simp
    then show ?thesis using True by (subst down_loop.simps) simp
  next
    case False
    with 1 show ?thesis by (subst down_loop.simps) simp
  qed
qed

lemma down_loop_rule:
  assumes "a \<le> b" and "I b st"
    and "\<And>i st. a \<le> i \<Longrightarrow> i < b \<Longrightarrow> I (i + 1) st \<Longrightarrow> I i (body i st)"
  shows "I a (down_loop b a body st)"
  using down_loop_rule_aux[of a b b I st body] assms by blast

lemma for_loop_empty: "e \<le> i \<Longrightarrow> for_loop i e body st = st"
  by (subst for_loop.simps) simp

lemma down_loop_empty: "i \<le> s \<Longrightarrow> down_loop i s body st = st"
  by (subst down_loop.simps) simp

lemma fold_foldl_map: "fold (\<lambda>j r. f r (g j)) xs r = foldl f r (map g xs)"
  by (induction xs arbitrary: r) auto

lemma reduceSerial_foldl: "reduceSerial s e f g = foldl f (g s) (map g [s + 1..e - 1])"
  by (simp add: reduceSerial_def for_loop_fold fold_foldl_map)

lemma foldl_assoc:
  assumes "\<forall>a b c. f (f a b) c = f a (f b c)"
  shows "foldl f (f a b) ys = f a (foldl f b ys)"
  using assms by (induction ys arbitrary: b) simp_all

lemma reduceSerial_absorb:
  assumes "\<forall>a b c. f (f a b) c = f a (f b c)" and "s < e"
  shows "f a (reduceSerial s e f g) = foldl f a (map g [s..e - 1])"
proof -
  have "[s..e - 1] = s # [s + 1..e - 1]"
    using assms(2) by (simp add: upto_rec1)
  then show ?thesis
    by (simp add: reduceSerial_foldl foldl_assoc[OF assms(1)])
qed

lemma block_sums_fold:
  assumes assoc: "\<forall>a b c. f (f a b) c = f a (f b c)"
    and "0 < b" and "0 \<le> k0" and "k0 \<le> k" and "s + (k - 1) * b < e \<or> k = k0"
  shows "foldl f a (map (\<lambda>i. reduceSerial (s + i * b) (min (s + i * b + b) e) f g) [k0..k - 1])
         = foldl f a (map g [s + k0 * b..min (s + k * b) e - 1])"
  using assms(3-)
proof (induction "nat (k - k0)" arbitrary: k)
  case 0
  then have "k = k0" by simp
  then show ?case by simp
next
  case (Suc d)
  then have k: "k0 < k" and lt: "s + (k - 1) * b < e" by auto
  have prev: "s + (k - 1 - 1) * b < e \<or> k - 1 = k0"
    using lt \<open>0 < b\<close> by (auto simp: algebra_simps intro: less_trans)
  have ih: "foldl f a (map (\<lambda>i. reduceSerial (s + i * b) (min (s + i * b + b) e) f g) [k0..k - 1 - 1])
         = foldl f a (map g [s + k0 * b..min (s + (k - 1) * b) e - 1])"
    using Suc(1)[of "k - 1"] Suc(2) k prev \<open>0 \<le> k0\<close> by auto
  have split: "[k0..k - 1] = [k0..k - 1 - 1] @ [k - 1]"
    using k by (simp add: upto_rec2)
  have m1: "min (s + (k - 1) * b) e = s + (k - 1) * b"
    using lt by simp
  have m2: "min (s + (k - 1) * b + b) e = min (s + k * b) e"
    by (simp add: algebra_simps)
  have le1: "s + k0 * b \<le> s + (k - 1) * b"
    using k \<open>0 < b\<close> by (simp add: mult_right_mono)
  have ne: "s + (k - 1) * b < min (s + k * b) e"
    using lt \<open>0 < b\<close> by (simp add: algebra_simps)
  have cat: "[s + k0 * b..min (s + k * b) e - 1]
             = [s + k0 * b..s + (k - 1) * b - 1] @ [s + (k - 1) * b..min (s + k * b) e - 1]"
    using le1 ne upto_split1[of "s + k0 * b" "s + (k - 1) * b" "min (s + k * b) e - 1"]
    by (cases "s + k0 * b = s + (k - 1) * b") auto
  show ?case
    unfolding split cat
    using ih ne
    by (simp add: m1 m2 reduceSerial_absorb[OF assoc])
qed

lemma nblocks_bounds:
  assumes "0 < n" and "0 < b"
  shows "(nblocks n b - 1) * b < n" and "n \<le> nblocks n b * b" and "1 \<le> nblocks n b"
proof -
  have l: "nblocks n b = 1 + (n - 1) div b"
    using assms by (rule nblocks_pos)
  have "(n - 1) div b * b + (n - 1) mod b = n - 1" "0 \<le> (n - 1) mod b"
    using assms by simp_all
  then have "(n - 1) div b * b \<le> n - 1"
    by linarith
  then show "(nblocks n b - 1) * b < n"
    by (simp add: l)
  have "n - 1 = (n - 1) div b * b + (n - 1) mod b"
    by simp
  moreover have "(n - 1) mod b < b"
    using assms by simp
  ultimately have "n - 1 < (n - 1) div b * b + b"
    by linarith
  then show "n \<le> nblocks n b * b"
    by (simp add: l algebra_simps)
  show "1 \<le> nblocks n b"
    using assms by (simp add: l pos_imp_zdiv_nonneg_iff)
qed

lemma nblocks_gt_1: "0 < b \<Longrightarrow> 1 < nblocks n b \<Longrightarrow> b < n"
proof -
  assume b: "0 < b" and l: "1 < nblocks n b"
  have n: "0 < n"
    using nblocks_nonpos[of n b] b l by (cases "0 < n") auto
  from nblocks_bounds(1)[OF n b] l b show ?thesis
    by (smt (verit) mult_le_cancel_right1)
qed

lemma blocked_for_upd:
  "blocked_for s e b (\<lambda>i s e Sums. Sums(i := h s e)) S0
   = (\<lambda>i. if 0 \<le> i \<and> i < nblocks (e - s) b then h (s + i * b) (min (s + i * b + b) e) else S0 i)"
  by (simp add: blocked_for_def parallel_for_def Let_def for_loop_upd)

lemma reduce_foldl:
  "\<forall>a b c. f (f a b) c = f a (f b c) \<Longrightarrow> s < e \<Longrightarrow>
   reduce s e f g = foldl f (g s) (map g [s + 1..e - 1])"
proof (induction s e f g rule: reduce.induct)
  case (1 s e f g)
  note assoc = 1(2)
  define l where "l = nblocks (e - s) SCAN_BSIZE"
  show ?case
  proof (cases "l \<le> 1")
    case True
    then show ?thesis
      by (subst reduce.simps) (simp add: l_def reduce_route_def reduceSerial_foldl)
  next
    case False
    define Sums :: "int \<Rightarrow> 'a" where
      "Sums = blocked_for s e SCAN_BSIZE (\<lambda>i s e Sums. Sums(i := reduceSerial s e f g)) (newA l)"
    have B: "0 < SCAN_BSIZE" by (simp add: SCAN_BSIZE_eq)
    have n: "0 < e - s" using 1(3) by simp
    have lb: "(l - 1) * SCAN_BSIZE < e - s" "e - s \<le> l * SCAN_BSIZE"
      using nblocks_bounds[OF n B] by (simp_all add: l_def)
    have big: "SCAN_BSIZE < e - s"
      using nblocks_gt_1[OF B, of "e - s"] False by (simp add: l_def)
    have S: "Sums i = reduceSerial (s + i * SCAN_BSIZE) (min (s + i * SCAN_BSIZE + SCAN_BSIZE) e) f g"
      if "0 \<le> i" "i < l" for i
      using that by (simp add: Sums_def blocked_for_upd l_def)
    have "reduce s e f g = reduce 0 l f (getA 0 Sums)"
      using False by (subst reduce.simps) (simp add: l_def reduce_route_def Sums_def Let_def)
    also have "\<dots> = foldl f (getA 0 Sums 0) (map (getA 0 Sums) [0 + 1..l - 1])"
      using 1(1)[OF refl _ refl refl assoc] False
      by (simp add: l_def reduce_route_def Sums_def)
    also have "\<dots> = foldl f (Sums 0) (map Sums [1..l - 1])"
      by (simp add: getA_def[abs_def])
    also have "map Sums [1..l - 1]
        = map (\<lambda>i. reduceSerial (s + i * SCAN_BSIZE) (min (s + i * SCAN_BSIZE + SCAN_BSIZE) e) f g) [1..l - 1]"
      using S by (intro map_cong) auto
    also have "foldl f (Sums 0) \<dots> = foldl f (Sums 0) (map g [s + 1 * SCAN_BSIZE..min (s + l * SCAN_BSIZE) e - 1])"
    proof (rule block_sums_fold[OF assoc B])
      show "(0::int) \<le> 1" by simp
      show "1 \<le> l" using False by simp
      show "s + (l - 1) * SCAN_BSIZE < e \<or> l = 1" using lb by simp
    qed
    also have "min (s + l * SCAN_BSIZE) e = e"
      using lb by simp
    also have "Sums 0 = foldl f (g s) (map g [s + 1..s + SCAN_BSIZE - 1])"
      using S[of 0] False big by (simp add: reduceSerial_foldl)
    also have "foldl f (foldl f (g s) (map g [s + 1..s + SCAN_BSIZE - 1])) (map g [s + 1 * SCAN_BSIZE..e - 1])
        = foldl f (g s) (map g ([s + 1..s + SCAN_BSIZE - 1] @ [s + SCAN_BSIZE..e - 1]))"
      by simp
    also have "[s + 1..s + SCAN_BSIZE - 1] @ [s + SCAN_BSIZE..e - 1] = [s + 1..e - 1]"
      using big B upto_split1[of "s + 1" "s + SCAN_BSIZE" "e - 1"] by auto
    finally show ?thesis .
  qed
qed

section \<open>Forward scan\<close>

lemma stable_sub:
  assumes "stable g m Out s e" and "s \<le> s'" and "e' \<le> e"
    and "\<forall>a. m1 a \<noteq> m a \<longrightarrow> Out + s \<le> a \<and> a < Out + e \<and> \<not> (Out + s' \<le> a \<and> a < Out + e')"
  shows "stable g m1 Out s' e'" and "\<forall>i. s' \<le> i \<and> i < e' \<longrightarrow> g m1 i = g m i"
proof -
  have *: "g m' i = g m i"
    if "s' \<le> i" "i < e'" "\<forall>a. m' a \<noteq> m1 a \<longrightarrow> Out + s' \<le> a \<and> a < Out + e' \<and> a \<noteq> Out + i" for m' i
  proof -
    have "\<forall>a. m' a \<noteq> m a \<longrightarrow> Out + s \<le> a \<and> a < Out + e \<and> a \<noteq> Out + i"
      using that assms(2-) by (metis add_le_cancel_left add_less_cancel_left order.trans less_le_trans)
    with assms(1) that(1,2) assms(2,3) show ?thesis
      unfolding stable_def by (meson order.trans less_le_trans)
  qed
  have **: "g m1 i = g m i" if "s' \<le> i" "i < e'" for i
    using *[of i m1] that by simp
  show "\<forall>i. s' \<le> i \<and> i < e' \<longrightarrow> g m1 i = g m i"
    using ** by blast
  show "stable g m1 Out s' e'"
    unfolding stable_def using * ** by metis
qed

lemma scanSerial_forward:
  assumes "stable g m Out s e"
  shows "scanSerial m Out s e f g z inclusive False
         = (scan_fwd_mem m Out s e f (g m) z inclusive, foldl f z (map (g m) [s..e - 1]))"
proof (cases "s \<le> e")
  case False
  then show ?thesis
    by (auto simp: scanSerial_def for_loop_empty scan_fwd_mem_def fun_eq_iff)
next
  case True
  define I where "I i st \<longleftrightarrow>
    st = (scan_fwd_mem m Out s i f (g m) z inclusive, foldl f z (map (g m) [s..i - 1]))" for i st
  have g: "g (scan_fwd_mem m Out s i f (g m) z inclusive) i = g m i" if "s \<le> i" "i < e" for i
  proof -
    have "\<forall>a. scan_fwd_mem m Out s i f (g m) z inclusive a \<noteq> m a
            \<longrightarrow> Out + s \<le> a \<and> a < Out + e \<and> a \<noteq> Out + i"
      using that by (simp add: scan_fwd_mem_def)
    with assms that show ?thesis
      unfolding stable_def by blast
  qed
  have r: "foldl f z (map (g m) [s..i + 1 - 1]) = f (foldl f z (map (g m) [s..i - 1])) (g m i)"
    if "s \<le> i" for i
    using that by (simp add: upto_rec2)
  have mem: "(scan_fwd_mem m Out s i f (g m) z inclusive)
                 (Out + i := foldl f z (map (g m) [s..i - (if inclusive then 0 else 1)]))
             = scan_fwd_mem m Out s (i + 1) f (g m) z inclusive" if "s \<le> i" for i
    using that by (auto simp: scan_fwd_mem_def fun_eq_iff)
  have init: "I s (m, z)"
    by (auto simp: I_def scan_fwd_mem_def fun_eq_iff)
  show ?thesis
  proof (cases inclusive)
    case True
    have step: "I (i + 1) ((\<lambda>i (m, r). let r = f r (g m i) in (m(Out + i := r), r)) i st)"
      if "s \<le> i" "i < e" "I i st" for i st
    proof -
      have st: "st = (scan_fwd_mem m Out s i f (g m) z inclusive, foldl f z (map (g m) [s..i - 1]))"
        using that(3) by (simp add: I_def)
      have "foldl f z (map (g m) [s..i - (if inclusive then 0 else 1)])
             = f (foldl f z (map (g m) [s..i - 1])) (g m i)"
        using r[OF that(1)] True by simp
      then show ?thesis
        unfolding st I_def using mem[OF that(1)] g[OF that(1,2)] r[OF that(1)]
        by (simp add: Let_def)
    qed
    have "I e (for_loop s e (\<lambda>i (m, r). let r = f r (g m i) in (m(Out + i := r), r)) (m, z))"
      using \<open>s \<le> e\<close> init step by (rule for_loop_rule)
    then show ?thesis
      using True by (simp add: I_def scanSerial_def)
  next
    case False
    have step: "I (i + 1) ((\<lambda>i (m, r). let t = g m i; m = m(Out + i := r); r = f r t in (m, r)) i st)"
      if "s \<le> i" "i < e" "I i st" for i st
    proof -
      have st: "st = (scan_fwd_mem m Out s i f (g m) z inclusive, foldl f z (map (g m) [s..i - 1]))"
        using that(3) by (simp add: I_def)
      show ?thesis
        unfolding st I_def using mem[OF that(1)] g[OF that(1,2)] r[OF that(1)] False
        by (simp add: Let_def)
    qed
    have "I e (for_loop s e (\<lambda>i (m, r). let t = g m i; m = m(Out + i := r); r = f r t in (m, r)) (m, z))"
      using \<open>s \<le> e\<close> init step by (rule for_loop_rule)
    then show ?thesis
      using False by (simp add: I_def scanSerial_def)
  qed
qed

lemma stable_getA_same: "stable (getA Out) m Out s e"
  unfolding stable_def getA_def by auto

lemma stable_getA_apart: "In + e \<le> Out + s \<or> Out + e \<le> In + s \<Longrightarrow> stable (getA In) m Out s e"
  unfolding stable_def getA_def
proof (intro allI impI)
  fix i m'
  assume d: "In + e \<le> Out + s \<or> Out + e \<le> In + s"
    and h: "s \<le> i \<and> i < e \<and> (\<forall>a. m' a \<noteq> m a \<longrightarrow> Out + s \<le> a \<and> a < Out + e \<and> a \<noteq> Out + i)"
  have "\<not> (Out + s \<le> In + i \<and> In + i < Out + e)"
    using d h by linarith
  with h show "m' (In + i) = m (In + i)"
    by blast
qed

lemma upto_cat: "s \<le> s' \<Longrightarrow> s' - 1 \<le> x \<Longrightarrow> [s..x] = [s..s' - 1] @ [s'..x]" for s :: int
proof (cases "s' \<le> x")
  case True
  assume "s \<le> s'"
  with True show ?thesis using upto_split1[of s s' x] by simp
next
  case False
  assume "s' - 1 \<le> x"
  with False have "x = s' - 1" by simp
  then show ?thesis by simp
qed

lemma scan_blocks_forward:
  assumes st: "stable g m Out s e" and B: "0 < B" and se: "s < e"
    and seed: "\<forall>k. 0 \<le> k \<and> k < nblocks (e - s) B
                 \<longrightarrow> seed k = foldl f z (map (g m) [s..s + k * B - 1])"
  shows "blocked_for s e B (\<lambda>i s e m. fst (scanSerial m Out s e f g (seed i) inclusive False)) m
         = scan_fwd_mem m Out s e f (g m) z inclusive"
proof -
  define l where "l = nblocks (e - s) B"
  define I where "I k st \<longleftrightarrow> st = scan_fwd_mem m Out s (min (s + k * B) e) f (g m) z inclusive"
    for k st
  have n: "0 < e - s" using se by simp
  have lb: "(l - 1) * B < e - s" "e - s \<le> l * B" "1 \<le> l"
    using nblocks_bounds[OF n B] by (simp_all add: l_def)
  have init: "I 0 m"
    by (auto simp: I_def scan_fwd_mem_def fun_eq_iff)
  have step: "I (k + 1) ((\<lambda>i st. let s' = s + i * B; e' = min (s' + B) e
                  in fst (scanSerial st Out s' e' f g (seed i) inclusive False)) k st)"
    if k: "0 \<le> k" "k < l" and Ik: "I k st" for k st
  proof -
    define s' where "s' = s + k * B"
    define e' where "e' = min (s' + B) e"
    have "k * B \<le> (l - 1) * B"
      using k B by (intro mult_right_mono) auto
    then have s'e: "s' < e" using lb(1) by (simp add: s'_def)
    have ss': "s \<le> s'" using k B by (simp add: s'_def)
    have s'e': "s' < e'" "e' \<le> e" using s'e B by (simp_all add: e'_def)
    have mk: "st = scan_fwd_mem m Out s s' f (g m) z inclusive"
      using Ik s'e by (simp add: I_def s'_def)
    have diff: "\<forall>a. st a \<noteq> m a \<longrightarrow> Out + s \<le> a \<and> a < Out + e \<and> \<not> (Out + s' \<le> a \<and> a < Out + e')"
      using s'e by (auto simp: mk scan_fwd_mem_def)
    note sub = stable_sub[OF st ss' s'e'(2) diff]
    have gk: "map (g st) [s'..x] = map (g m) [s'..x]" if "x < e'" for x
      using sub(2) that by (intro map_cong) auto
    have sd: "seed k = foldl f z (map (g m) [s..s' - 1])"
      using seed k by (simp add: l_def s'_def)
    have pt: "foldl f (seed k) (map (g st) [s'..x]) = foldl f z (map (g m) [s..x])"
      if "s' - 1 \<le> x" "x < e'" for x
      by (simp only: sd upto_cat[OF ss' that(1)] map_append foldl_append gk[OF that(2)])
    have "fst (scanSerial st Out s' e' f g (seed k) inclusive False)
          = scan_fwd_mem st Out s' e' f (g st) (seed k) inclusive"
      by (simp add: scanSerial_forward[OF sub(1)])
    also have "\<dots> = scan_fwd_mem m Out s e' f (g m) z inclusive"
    proof
      fix a
      show "scan_fwd_mem st Out s' e' f (g st) (seed k) inclusive a
            = scan_fwd_mem m Out s e' f (g m) z inclusive a"
      proof (cases "Out + s' \<le> a \<and> a < Out + e'")
        case True
        then have "s' - 1 \<le> a - Out - (if inclusive then 0 else 1)"
          "a - Out - (if inclusive then 0 else 1) < e'"
          by auto
        from pt[OF this] True ss' show ?thesis
          by (simp add: scan_fwd_mem_def)
      next
        case False
        then show ?thesis
          using ss' s'e'(1) by (auto simp: mk scan_fwd_mem_def)
      qed
    qed
    finally have "fst (scanSerial st Out s' e' f g (seed k) inclusive False)
          = scan_fwd_mem m Out s e' f (g m) z inclusive" .
    moreover have "min (s + (k + 1) * B) e = e'"
      by (simp add: e'_def s'_def algebra_simps)
    ultimately show ?thesis
      by (simp add: I_def Let_def s'_def[symmetric] e'_def[symmetric])
  qed
  have "I l (for_loop 0 l (\<lambda>i st. let s' = s + i * B; e' = min (s' + B) e
                  in fst (scanSerial st Out s' e' f g (seed i) inclusive False)) m)"
    using lb(3) by (intro for_loop_rule[where I = I, OF _ init] step) auto
  moreover have "min (s + l * B) e = e"
    using lb by simp
  ultimately show ?thesis
    by (simp add: I_def blocked_for_def parallel_for_def Let_def l_def)
qed

lemma scan_forward:
  "\<forall>a b c. f (f a b) c = f a (f b c) \<Longrightarrow> \<not> back \<Longrightarrow> stable g m Out s e \<Longrightarrow>
   scan m Out s e f g z inclusive back
   = (scan_fwd_mem m Out s e f (g m) z inclusive, foldl f z (map (g m) [s..e - 1]))"
proof (induction m Out s e f g z inclusive "back" rule: scan.induct)
  case (1 m Out s e f g z inclusive bk)
  note assoc = 1(2) and nb = 1(3) and st = 1(4)
  define l where "l = nblocks (e - s) SCAN_BSIZE"
  show ?case
  proof (cases "l \<le> 2")
    case True
    then show ?thesis
      using nb by (subst scan.simps) (simp add: l_def scan_route_def scanSerial_forward[OF st])
  next
    case False
    define Sums :: "int \<Rightarrow> 'a" where
      "Sums = blocked_for s e SCAN_BSIZE (\<lambda>i s e Sums. Sums(i := reduceSerial s e f (g m)))
                (newA l)"
    have B: "0 < SCAN_BSIZE" by (simp add: SCAN_BSIZE_eq)
    have big: "SCAN_BSIZE < e - s"
      using nblocks_gt_1[OF B, of "e - s"] False by (simp add: l_def)
    then have n: "0 < e - s" and se: "s < e" using B by simp_all
    have lb: "(l - 1) * SCAN_BSIZE < e - s" "e - s \<le> l * SCAN_BSIZE"
      using nblocks_bounds[OF n B] by (simp_all add: l_def)
    have S: "Sums i = reduceSerial (s + i * SCAN_BSIZE) (min (s + i * SCAN_BSIZE + SCAN_BSIZE) e) f (g m)"
      if "0 \<le> i" "i < l" for i
      using that by (simp add: Sums_def blocked_for_upd l_def)
    have mapS: "map Sums [0..k - 1]
        = map (\<lambda>i. reduceSerial (s + i * SCAN_BSIZE) (min (s + i * SCAN_BSIZE + SCAN_BSIZE) e) f (g m)) [0..k - 1]"
      if "k \<le> l" for k
      using S that by (intro map_cong) auto
    have pre: "foldl f z (map Sums [0..k - 1]) = foldl f z (map (g m) [s..min (s + k * SCAN_BSIZE) e - 1])"
      if "0 \<le> k" "k \<le> l" for k
    proof -
      have "(k - 1) * SCAN_BSIZE \<le> (l - 1) * SCAN_BSIZE"
        using that B by (intro mult_right_mono) auto
      then have c: "s + (k - 1) * SCAN_BSIZE < e \<or> k = 0"
        using lb by simp
      show ?thesis
        unfolding mapS[OF that(2)]
        using block_sums_fold[OF assoc B _ that(1) c, of z "g m"] by simp
    qed
    have rec: "scan Sums 0 0 l f (getA 0) z False bk
       = (scan_fwd_mem Sums 0 0 l f (getA 0 Sums) z False, foldl f z (map (getA 0 Sums) [0..l - 1]))"
      using 1(1)[OF refl refl _ refl refl assoc nb stable_getA_same] False
      by (simp add: l_def scan_route_def Sums_def)
    have getS: "getA 0 Sums = Sums"
      by (simp add: getA_def fun_eq_iff)
    have total: "foldl f z (map (getA 0 Sums) [0..l - 1]) = foldl f z (map (g m) [s..e - 1])"
      using pre[of l] False lb by (simp add: getS)
    have seed: "\<forall>k. 0 \<le> k \<and> k < nblocks (e - s) SCAN_BSIZE
        \<longrightarrow> scan_fwd_mem Sums 0 0 l f (getA 0 Sums) z False k
            = foldl f z (map (g m) [s..s + k * SCAN_BSIZE - 1])"
    proof (intro allI impI)
      fix k
      assume k: "0 \<le> k \<and> k < nblocks (e - s) SCAN_BSIZE"
      then have "k * SCAN_BSIZE \<le> (l - 1) * SCAN_BSIZE"
        using B by (intro mult_right_mono) (auto simp: l_def)
      then have "min (s + k * SCAN_BSIZE) e = s + k * SCAN_BSIZE"
        using lb by simp
      with pre[of k] k show "scan_fwd_mem Sums 0 0 l f (getA 0 Sums) z False k
            = foldl f z (map (g m) [s..s + k * SCAN_BSIZE - 1])"
        by (simp add: scan_fwd_mem_def getS l_def)
    qed
    have "scan m Out s e f g z inclusive bk
          = (blocked_for s e SCAN_BSIZE
               (\<lambda>i s e m. fst (scanSerial m Out s e f g
                   (scan_fwd_mem Sums 0 0 l f (getA 0 Sums) z False i) inclusive bk)) m,
             foldl f z (map (getA 0 Sums) [0..l - 1]))"
      using False
      by (subst scan.simps) (simp add: l_def[symmetric] scan_route_def Sums_def[symmetric] Let_def rec)
    then show ?thesis
      using nb by (simp add: total scan_blocks_forward[OF st B se seed])
  qed
qed

section \<open>Claims on reduce and the forward scan\<close>

lemma foldl_plus_const: "foldl (+) (a::int) (map (\<lambda>_. c) xs) = a + c * int (length xs)"
  by (induction xs arbitrary: a) (simp_all add: algebra_simps)


text \<open>
  C2. For a non-empty range \<open>[s, e)\<close> and an associative combiner \<open>f\<close>, \<open>reduce\<close> returns the
  left-to-right fold of the values under \<open>f\<close> seeded by the first value, whatever the number
  of blocks and the depth of the recursion: it equals \<open>reduceSerial\<close> on the same range.
\<close>

theorem reduce_is_sequential_fold:
  "\<forall>a b c. f (f a b) c = f a (f b c) \<Longrightarrow> s < e \<Longrightarrow>
     reduce s e f g = foldl f (g s) (map g [s + 1..e - 1])
     \<and> reduce s e f g = reduceSerial s e f g"
  by (simp add: reduce_foldl reduceSerial_foldl)

theorem reduce_is_sequential_fold_witness:
  "reduce_arr (\<lambda>a. [3, 1, 4, 1, 5, 9, 2, 6] ! nat a) 0 8 (+) = (31::int)
   \<and> reduce 0 5000 (+) (\<lambda>_. 1::int) = 5000"
proof -
  have a: "\<forall>a b c::int. a + b + c = a + (b + c)" by simp
  have "reduce_arr (\<lambda>a. [3, 1, 4, 1, 5, 9, 2, 6] ! nat a) 0 8 (+) = (31::int)"
    using reduce_is_sequential_fold[OF a, of 0 8 "getA 0 (\<lambda>a. [3, 1, 4, 1, 5, 9, 2, 6] ! nat a)"]
    by (simp add: reduce_arr_def getA_def upto_rec1)
  moreover have "reduce 0 5000 (+) (\<lambda>_. 1::int) = 5000"
    using reduce_is_sequential_fold[OF a, of 0 5000 "\<lambda>_. 1::int"]
    by (simp add: foldl_plus_const)
  ultimately show ?thesis by simp
qed

text \<open>
  C1. For an array of \<open>n\<close> elements at \<open>In\<close>, a destination \<open>Out\<close> that is the array itself
  or does not overlap it, an associative combiner \<open>f\<close> and a zero \<open>z\<close>: the exclusive forward
  scan leaves in \<open>Out[i]\<close> the left-to-right fold of \<open>z\<close> with \<open>A[0..i)\<close>, the inclusive one
  the fold of \<open>z\<close> with \<open>A[0..i]\<close>, and both return the fold of \<open>z\<close> with all of \<open>A[0..n)\<close>,
  whatever the number of blocks.
\<close>

theorem scan_forward_matches_fold:
  "\<forall>a b c. f (f a b) c = f a (f b c) \<Longrightarrow> In = Out \<or> In + n \<le> Out \<or> Out + n \<le> In \<Longrightarrow>
     (\<forall>i. 0 \<le> i \<and> i < n \<longrightarrow>
        fst (scan_arr m In Out n f z) (Out + i) = foldl f z (map (\<lambda>j. m (In + j)) [0..i - 1]))
     \<and> (\<forall>i. 0 \<le> i \<and> i < n \<longrightarrow>
        fst (scanI m In Out n f z) (Out + i) = foldl f z (map (\<lambda>j. m (In + j)) [0..i]))
     \<and> snd (scan_arr m In Out n f z) = foldl f z (map (\<lambda>j. m (In + j)) [0..n - 1])
     \<and> snd (scanI m In Out n f z) = foldl f z (map (\<lambda>j. m (In + j)) [0..n - 1])"
proof -
  assume assoc: "\<forall>a b c. f (f a b) c = f a (f b c)"
    and al: "In = Out \<or> In + n \<le> Out \<or> Out + n \<le> In"
  have st: "stable (getA In) m Out 0 n"
    using al stable_getA_same[of Out m 0 n] stable_getA_apart[of In n Out 0 m] by auto
  have g: "getA In m = (\<lambda>j. m (In + j))"
    by (simp add: getA_def fun_eq_iff)
  show ?thesis
    unfolding scan_arr_def scanI_def
    by (simp add: scan_forward[OF assoc _ st] scan_fwd_mem_def g)
qed

theorem scan_forward_matches_fold_witness:
  "fst (scan_arr (\<lambda>_. 1::int) 0 10 4 (+) 0) 10 = 0
   \<and> fst (scan_arr (\<lambda>_. 1::int) 0 10 4 (+) 0) 11 = 1
   \<and> fst (scan_arr (\<lambda>_. 1::int) 0 10 4 (+) 0) 12 = 2
   \<and> fst (scan_arr (\<lambda>_. 1::int) 0 10 4 (+) 0) 13 = 3
   \<and> snd (scan_arr (\<lambda>_. 1::int) 0 10 4 (+) 0) = 4
   \<and> fst (scanI (\<lambda>_. 1::int) 0 10 4 (+) 0) 13 = 4
   \<and> snd (scanI (\<lambda>_. 1::int) 0 10 4 (+) 0) = 4
   \<and> fst (scan_arr (\<lambda>_. 1::int) 0 5000 5000 (+) 0) (5000 + 4321) = 4321
   \<and> snd (scanI (\<lambda>_. 1::int) 0 5000 5000 (+) 0) = 5000"
proof -
  have a: "\<forall>a b c::int. a + b + c = a + (b + c)" by simp
  have s: "fst (scan_arr (\<lambda>_. 1::int) 0 10 4 (+) 0) (10 + i) = i
        \<and> fst (scanI (\<lambda>_. 1::int) 0 10 4 (+) 0) (10 + i) = i + 1" if "0 \<le> i" "i < 4" for i
    using scan_forward_matches_fold[OF a, of 0 10 4 "\<lambda>_. 1::int" 0] that
    by (simp add: foldl_plus_const)
  have t: "snd (scan_arr (\<lambda>_. 1::int) 0 10 4 (+) 0) = 4 \<and> snd (scanI (\<lambda>_. 1::int) 0 10 4 (+) 0) = 4"
    using scan_forward_matches_fold[OF a, of 0 10 4 "\<lambda>_. 1::int" 0]
    by (simp add: foldl_plus_const)
  note big = scan_forward_matches_fold[OF a, of 0 5000 5000 "\<lambda>_. 1::int" 0]
  have b: "fst (scan_arr (\<lambda>_. 1::int) 0 5000 5000 (+) 0) (5000 + 4321) = 4321
      \<and> snd (scanI (\<lambda>_. 1::int) 0 5000 5000 (+) 0) = 5000"
    using big[THEN conjunct1, rule_format, of 4321] big[THEN conjunct2]
    by (simp add: foldl_plus_const)
  show ?thesis
    using s[of 0] s[of 1] s[of 2] s[of 3] t b by simp
qed

section \<open>In-place scan\<close>

lemma foldl_addF_sum: "foldl addF (a::int) xs = a + sum_list xs"
  by (induction xs arbitrary: a) (simp_all add: addF_def)

text \<open>
  C10. The exclusive scan may be called with the destination aliasing the source: for an
  associative \<open>f\<close>, \<open>scan(In, In, n, f, z)\<close> leaves the same outputs and returns the same total
  as the scan into a destination that does not overlap the source. In particular
  \<open>plusScan(Sums, Sums, l)\<close>, as pack calls it on its counts, leaves in \<open>Sums[k]\<close> the sum of
  the counts before \<open>k\<close> and returns the sum of all of them.
\<close>

theorem scan_in_place_same_as_fresh:
  "\<forall>a b c. f (f a b) c = f a (f b c) \<Longrightarrow> In + n \<le> Out \<or> Out + n \<le> In \<Longrightarrow>
     (\<forall>i. 0 \<le> i \<and> i < n \<longrightarrow>
        fst (scan_arr m In In n f z) (In + i) = fst (scan_arr m In Out n f z) (Out + i))
     \<and> snd (scan_arr m In In n f z) = snd (scan_arr m In Out n f z)
     \<and> (\<forall>k. 0 \<le> k \<and> k < l \<longrightarrow> fst (plusScan Sums 0 0 l) k = (sum_list (map Sums [0..k - 1]) :: int))
     \<and> snd (plusScan Sums 0 0 l) = sum_list (map Sums [0..l - 1])"
proof -
  assume assoc: "\<forall>a b c. f (f a b) c = f a (f b c)"
    and al: "In + n \<le> Out \<or> Out + n \<le> In"
  have st1: "stable (getA In) m In 0 n"
    by (rule stable_getA_same)
  have st2: "stable (getA In) m Out 0 n"
    using al stable_getA_apart[of In n Out 0 m] by auto
  have st3: "stable (getA 0) Sums 0 0 l"
    by (rule stable_getA_same)
  have add: "\<forall>a b c::int. addF (addF a b) c = addF a (addF b c)"
    by (simp add: addF_def)
  have g: "getA 0 Sums = Sums"
    by (simp add: getA_def fun_eq_iff)
  show ?thesis
    unfolding scan_arr_def plusScan_def
    by (simp add: scan_forward[OF assoc _ st1] scan_forward[OF assoc _ st2]
        scan_forward[OF add _ st3] scan_fwd_mem_def g foldl_addF_sum)
qed

theorem scan_in_place_same_as_fresh_witness:
  "fst (scan_arr (\<lambda>a. if a < 4 then a + 1 else 0) 0 0 4 (+) (0::int)) 3 = 6
   \<and> fst (scan_arr (\<lambda>a. if a < 4 then a + 1 else 0) 0 10 4 (+) (0::int)) 13 = 6
   \<and> snd (scan_arr (\<lambda>a. if a < 4 then a + 1 else 0) 0 0 4 (+) (0::int)) = 10
   \<and> fst (plusScan (\<lambda>a. if a < 3 then 2 else 0) 0 0 3) 2 = (4::int)
   \<and> snd (plusScan (\<lambda>a. if a < 3 then 2 else 0) 0 0 3) = (6::int)"
proof -
  have a: "\<forall>a b c::int. a + b + c = a + (b + c)" by simp
  have d: "(0::int) + 4 \<le> 10 \<or> (10::int) + 4 \<le> 0" by simp
  note w = scan_in_place_same_as_fresh[OF a d, of "\<lambda>a. if a < 4 then a + 1 else 0" 0 3
      "\<lambda>a. if a < 3 then 2 else 0"]
  have i: "fst (scan_arr (\<lambda>a. if a < 4 then a + 1 else 0) 0 0 4 (+) (0::int)) 3 = 6"
    by (simp add: scan_arr_def scan.simps scan_route_def nblocks_def SCAN_BSIZE_eq scanSerial_def
        for_loop.simps getA_def)
  have t: "snd (scan_arr (\<lambda>a. if a < 4 then a + 1 else 0) 0 0 4 (+) (0::int)) = 10"
    by (simp add: scan_arr_def scan.simps scan_route_def nblocks_def SCAN_BSIZE_eq scanSerial_def
        for_loop.simps getA_def)
  show ?thesis
    using w[THEN conjunct1, rule_format, of 3] w[THEN conjunct2, THEN conjunct1]
      w[THEN conjunct2, THEN conjunct2, THEN conjunct1, rule_format, of 2]
      w[THEN conjunct2, THEN conjunct2, THEN conjunct2] i t
    by (simp add: upto_rec1)
qed

section \<open>Backward scan\<close>

lemma scanSerial_backward:
  assumes "stable g m Out s e"
  shows "scanSerial m Out s e f g z inclusive True
         = (scan_back_mem m Out s e f (g m) z inclusive, foldl f z (map (g m) (rev [s..e - 1])))"
proof (cases "s \<le> e")
  case False
  then show ?thesis
    by (auto simp: scanSerial_def down_loop_empty scan_back_mem_def fun_eq_iff)
next
  case True
  define I where "I i st \<longleftrightarrow>
    st = (scan_back_mem m Out i e f (g m) z inclusive, foldl f z (map (g m) (rev [i..e - 1])))" for i st
  have g: "g (scan_back_mem m Out (i + 1) e f (g m) z inclusive) i = g m i" if "s \<le> i" "i < e" for i
  proof -
    have "\<forall>a. scan_back_mem m Out (i + 1) e f (g m) z inclusive a \<noteq> m a
            \<longrightarrow> Out + s \<le> a \<and> a < Out + e \<and> a \<noteq> Out + i"
      using that by (simp add: scan_back_mem_def)
    with assms that show ?thesis
      unfolding stable_def by blast
  qed
  have r: "foldl f z (map (g m) (rev [i..e - 1])) = f (foldl f z (map (g m) (rev [i + 1..e - 1]))) (g m i)"
    if "i < e" for i
    using that by (simp add: upto_rec1)
  have mem: "(scan_back_mem m Out (i + 1) e f (g m) z inclusive)
                 (Out + i := foldl f z (map (g m) (rev [i + (if inclusive then 0 else 1)..e - 1])))
             = scan_back_mem m Out i e f (g m) z inclusive" if "i < e" for i
    using that by (auto simp: scan_back_mem_def fun_eq_iff)
  have init: "I e (m, z)"
    by (auto simp: I_def scan_back_mem_def fun_eq_iff)
  show ?thesis
  proof (cases inclusive)
    case True
    have step: "I i ((\<lambda>i (m, r). let r = f r (g m i) in (m(Out + i := r), r)) i st)"
      if "s \<le> i" "i < e" "I (i + 1) st" for i st
    proof -
      have st: "st = (scan_back_mem m Out (i + 1) e f (g m) z inclusive,
                      foldl f z (map (g m) (rev [i + 1..e - 1])))"
        using that(3) by (simp add: I_def)
      show ?thesis
        unfolding st I_def using mem[OF that(2)] g[OF that(1,2)] r[OF that(2)] True
        by (simp add: Let_def)
    qed
    have "I s (down_loop e s (\<lambda>i (m, r). let r = f r (g m i) in (m(Out + i := r), r)) (m, z))"
      using \<open>s \<le> e\<close> init step by (rule down_loop_rule)
    then show ?thesis
      using True by (simp add: I_def scanSerial_def)
  next
    case False
    have step: "I i ((\<lambda>i (m, r). let t = g m i; m = m(Out + i := r); r = f r t in (m, r)) i st)"
      if "s \<le> i" "i < e" "I (i + 1) st" for i st
    proof -
      have st: "st = (scan_back_mem m Out (i + 1) e f (g m) z inclusive,
                      foldl f z (map (g m) (rev [i + 1..e - 1])))"
        using that(3) by (simp add: I_def)
      show ?thesis
        unfolding st I_def using mem[OF that(2)] g[OF that(1,2)] r[OF that(2)] False
        by (simp add: Let_def)
    qed
    have "I s (down_loop e s (\<lambda>i (m, r). let t = g m i; m = m(Out + i := r); r = f r t in (m, r)) (m, z))"
      using \<open>s \<le> e\<close> init step by (rule down_loop_rule)
    then show ?thesis
      using False by (simp add: I_def scanSerial_def)
  qed
qed

text \<open>The combiner that keeps its second argument is associative and not commutative.\<close>

lemma foldl_snd: "foldl (\<lambda>a b. b) a xs = (if xs = [] then a else last xs)"
  by (induction xs arbitrary: a) auto

lemma reduceSerial_snd: "s < e \<Longrightarrow> reduceSerial s e (\<lambda>a b. b) g = g (e - 1)"
proof (cases "s + 1 \<le> e - 1")
  case True
  then show ?thesis
    by (simp add: reduceSerial_foldl foldl_snd last_map upto_rec2)
next
  case False
  assume "s < e"
  with False have "e - 1 = s" by simp
  then show ?thesis
    by (simp add: reduceSerial_foldl)
qed

lemma blocked_back_total:
  "snd (scanBack (\<lambda>a. a) 0 4096 2049 (\<lambda>a b. b) (- 1)) = (1023::int)"
proof -
  define Sums :: "int \<Rightarrow> int" where
    "Sums = blocked_for 0 2049 SCAN_BSIZE
              (\<lambda>i s e Sums. Sums(i := reduceSerial s e (\<lambda>a b. b) (getA 0 (\<lambda>a. a)))) (newA 3)"
  have S: "Sums 0 = 1023" "Sums 1 = 2047" "Sums 2 = 2048"
    by (simp_all add: Sums_def blocked_for_upd nblocks_def SCAN_BSIZE_eq reduceSerial_snd getA_def)
  have inner: "scan Sums 0 0 3 (\<lambda>a b. b) (getA 0) (- 1) False True
      = (scan_back_mem Sums 0 0 3 (\<lambda>a b. b) (getA 0 Sums) (- 1) False,
         foldl (\<lambda>a b. b) (- 1) (map (getA 0 Sums) (rev [0..3 - 1])))"
    by (subst scan.simps)
      (simp add: nblocks_def SCAN_BSIZE_eq scan_route_def scanSerial_backward[OF stable_getA_same])
  have nb: "nblocks 2049 SCAN_BSIZE = 3"
    by (simp add: nblocks_def SCAN_BSIZE_eq)
  have "snd (scanBack (\<lambda>a. a) 0 4096 2049 (\<lambda>a b. b) (- 1))
        = foldl (\<lambda>a b. b) (- 1) (map (getA 0 Sums) (rev [0..3 - 1]))"
    unfolding scanBack_def
    by (subst scan.simps)
      (simp add: nb scan_route_def Sums_def[symmetric] inner Let_def)
  then show ?thesis
    by (simp add: foldl_snd getA_def S upto_rec1)
qed

lemma for_loop_0_3: "for_loop 0 3 body st = body 2 (body 1 (body 0 st))"
  by (simp add: for_loop_fold upto_rec1)

lemma scanSerial_backward_fst:
  "stable g m Out s e \<Longrightarrow>
   fst (scanSerial m Out s e f g z inclusive True) = scan_back_mem m Out s e f (g m) z inclusive"
  by (simp add: scanSerial_backward)

lemma blocked_back_cell:
  "fst (scanBack (\<lambda>a. a) 0 4096 2049 (\<lambda>a b. b) (- 1)) (4096 + 1023) = (2047::int)"
proof -
  define Sums :: "int \<Rightarrow> int" where
    "Sums = blocked_for 0 2049 SCAN_BSIZE
              (\<lambda>i s e Sums. Sums(i := reduceSerial s e (\<lambda>a b. b) (getA 0 (\<lambda>a. a)))) (newA 3)"
  have S: "Sums 0 = 1023" "Sums 1 = 2047" "Sums 2 = 2048"
    by (simp_all add: Sums_def blocked_for_upd nblocks_def SCAN_BSIZE_eq reduceSerial_snd getA_def)
  define Sums2 where "Sums2 = scan_back_mem Sums 0 0 3 (\<lambda>a b. b) (getA 0 Sums) (- 1) False"
  have inner: "scan Sums 0 0 3 (\<lambda>a b. b) (getA 0) (- 1) False True
      = (Sums2, foldl (\<lambda>a b. b) (- 1) (map (getA 0 Sums) (rev [0..3 - 1])))"
    unfolding Sums2_def
    by (subst scan.simps)
      (simp add: nblocks_def SCAN_BSIZE_eq scan_route_def scanSerial_backward[OF stable_getA_same])
  have S2: "Sums2 0 = 2047"
    by (simp add: Sums2_def scan_back_mem_def foldl_snd getA_def S upto_rec1)
  have nb: "nblocks 2049 SCAN_BSIZE = 3"
    by (simp add: nblocks_def SCAN_BSIZE_eq)
  have w: "fst (scanBack (\<lambda>a. a) 0 4096 2049 (\<lambda>a b. b) (- 1))
        = blocked_for 0 2049 SCAN_BSIZE
            (\<lambda>i s e m. fst (scanSerial m 4096 s e (\<lambda>a b. b) (getA 0) (Sums2 i) False True)) (\<lambda>a. a)"
    unfolding scanBack_def
    by (subst scan.simps)
      (simp add: nb scan_route_def Sums_def[symmetric] inner Let_def)
  have "blocked_for 0 2049 SCAN_BSIZE
            (\<lambda>i s e m. fst (scanSerial m 4096 s e (\<lambda>a b. b) (getA 0) (Sums2 i) False True)) (\<lambda>a. a)
          (4096 + 1023) = Sums2 0"
    by (simp add: blocked_for_def parallel_for_def nblocks_def Let_def for_loop_0_3 SCAN_BSIZE_eq
        scanSerial_backward_fst stable_getA_apart scan_back_mem_def)
  then show ?thesis
    by (simp only: w S2)
qed

lemma last_upto: "i \<le> j \<Longrightarrow> last [i..j] = j"
  by (simp add: upto_rec2)

lemma reversed_forward_values:
  "snd (scan_arr (\<lambda>a. 2048 - a) 0 4096 2049 (\<lambda>a b. b) (- 1)) = (0::int)"
  "fst (scan_arr (\<lambda>a. 2048 - a) 0 4096 2049 (\<lambda>a b. b) (- 1)) (4096 + (2048 - 1023)) = (1024::int)"
proof -
  have a: "\<forall>a b c::int. (\<lambda>a b. b) ((\<lambda>a b. b) a b) c = (\<lambda>a b. b) a ((\<lambda>a b. b) b c)"
    by simp
  have st: "stable (getA 0) (\<lambda>a::int. 2048 - a) 4096 0 2049"
    by (rule stable_getA_apart) simp
  note f = scan_forward[OF a _ st, of False "- 1" False]
  show "snd (scan_arr (\<lambda>a. 2048 - a) 0 4096 2049 (\<lambda>a b. b) (- 1)) = (0::int)"
    by (simp add: scan_arr_def f foldl_snd last_map last_upto getA_def)
  show "fst (scan_arr (\<lambda>a. 2048 - a) 0 4096 2049 (\<lambda>a b. b) (- 1)) (4096 + (2048 - 1023)) = (1024::int)"
    by (simp add: scan_arr_def f scan_fwd_mem_def foldl_snd last_map last_upto getA_def)
qed

lemma rev_upto_map: "map (\<lambda>j. c - j) [a..b] = rev [c - b..c - a]"
proof (induction "nat (b - a + 1)" arbitrary: b)
  case 0
  then show ?case by simp
next
  case (Suc d)
  then have ab: "a \<le> b" by simp
  have "map (\<lambda>j. c - j) [a..b - 1] = rev [c - (b - 1)..c - a]"
    using Suc(1)[of "b - 1"] Suc(2) by simp
  moreover have "[c - b..c - a] = (c - b) # [c - (b - 1)..c - a]"
    using ab by (simp add: upto_rec1 algebra_simps)
  ultimately show ?case
    using ab by (simp add: upto_rec2)
qed

text \<open>
  On its serial route the backward scan of an array is the forward scan of the reversed
  array, reversed back, for every combiner.
\<close>

lemma scanBack_serial_mirrors:
  assumes "nblocks (n - 0) SCAN_BSIZE \<le> 2" and "In + n \<le> Out \<or> Out + n \<le> In"
    and "\<forall>j. 0 \<le> j \<and> j < n \<longrightarrow> mr (In + j) = m (In + (n - 1 - j))"
  shows "snd (scanBack m In Out n f z) = snd (scan_arr mr In Out n f z)"
    and "0 \<le> i \<Longrightarrow> i < n \<Longrightarrow>
         fst (scanBack m In Out n f z) (Out + i) = fst (scan_arr mr In Out n f z) (Out + (n - 1 - i))"
    and "0 \<le> i \<Longrightarrow> i < n \<Longrightarrow>
         fst (scanIBack m In Out n f z) (Out + i) = fst (scanI mr In Out n f z) (Out + (n - 1 - i))"
proof -
  have st: "stable (getA In) m Out 0 n" "stable (getA In) mr Out 0 n"
    using assms(2) by (auto intro!: stable_getA_apart)
  have m: "map (getA In mr) [0..k] = map (getA In m) (rev [n - 1 - k..n - 1])" if "k < n" for k
  proof -
    have "map (getA In mr) [0..k] = map (\<lambda>j. getA In m (n - 1 - j)) [0..k]"
      using assms(3) that by (intro map_cong) (auto simp: getA_def)
    also have "\<dots> = map (getA In m) (map (\<lambda>j. n - 1 - j) [0..k])"
      by (simp add: comp_def)
    also have "map (\<lambda>j. n - 1 - j) [0..k] = rev [n - 1 - k..n - 1]"
      using rev_upto_map[of "n - 1" 0 k] by simp
    finally show ?thesis .
  qed
  have b: "scan m Out 0 n f (getA In) z inc True = scanSerial m Out 0 n f (getA In) z inc True"
    and fw: "scan mr Out 0 n f (getA In) z inc False = scanSerial mr Out 0 n f (getA In) z inc False"
    for inc
    using assms(1) by (simp_all add: scan.simps scan_route_def)
  show "snd (scanBack m In Out n f z) = snd (scan_arr mr In Out n f z)"
    using m[of "n - 1"]
    by (simp add: scanBack_def scan_arr_def b fw scanSerial_backward[OF st(1)]
        scanSerial_forward[OF st(2)])
  show "fst (scanBack m In Out n f z) (Out + i) = fst (scan_arr mr In Out n f z) (Out + (n - 1 - i))"
    if "0 \<le> i" "i < n"
    using m[of "n - 1 - i - 1"] that
    by (simp add: scanBack_def scan_arr_def b fw scanSerial_backward[OF st(1)]
        scanSerial_forward[OF st(2)] scan_back_mem_def scan_fwd_mem_def algebra_simps)
  show "fst (scanIBack m In Out n f z) (Out + i) = fst (scanI mr In Out n f z) (Out + (n - 1 - i))"
    if "0 \<le> i" "i < n"
    using m[of "n - 1 - i"] that
    by (simp add: scanIBack_def scanI_def b fw scanSerial_backward[OF st(1)]
        scanSerial_forward[OF st(2)] scan_back_mem_def scan_fwd_mem_def algebra_simps)
qed

lemma foldl_rev_ac:
  assumes "\<forall>a b c. f (f a b) c = f a (f b c)" and "\<forall>a b. f a b = f b a"
  shows "foldl f z (rev xs) = foldl f z xs"
proof (induction xs arbitrary: z)
  case Nil
  then show ?case by simp
next
  case (Cons x xs)
  have "foldl f z (rev (x # xs)) = f (foldl f z xs) x"
    by (simp add: Cons)
  also have "\<dots> = f x (foldl f z xs)"
    using assms(2) by simp
  also have "\<dots> = foldl f (f x z) xs"
    by (simp add: foldl_assoc[OF assms(1)])
  also have "f x z = f z x"
    using assms(2) by simp
  finally show ?case by simp
qed

lemma scan_blocks_backward:
  assumes st: "stable g m Out s e" and B: "0 < B" and se: "s < e"
    and seed: "\<forall>k. 0 \<le> k \<and> k < nblocks (e - s) B
                 \<longrightarrow> seed k = foldl f z (map (g m) (rev [min (s + k * B + B) e..e - 1]))"
  shows "blocked_for s e B (\<lambda>i s e m. fst (scanSerial m Out s e f g (seed i) inclusive True)) m
         = scan_back_mem m Out s e f (g m) z inclusive"
proof -
  define l where "l = nblocks (e - s) B"
  define T where "T = scan_back_mem m Out s e f (g m) z inclusive"
  define I where "I k st \<longleftrightarrow>
     st = (\<lambda>a. if Out + s \<le> a \<and> a < Out + min (s + k * B) e then T a else m a)" for k st
  have n: "0 < e - s" using se by simp
  have lb: "(l - 1) * B < e - s" "e - s \<le> l * B" "1 \<le> l"
    using nblocks_bounds[OF n B] by (simp_all add: l_def)
  have init: "I 0 m"
    by (auto simp: I_def fun_eq_iff)
  have step: "I (k + 1) ((\<lambda>i st. let s' = s + i * B; e' = min (s' + B) e
                  in fst (scanSerial st Out s' e' f g (seed i) inclusive True)) k st)"
    if k: "0 \<le> k" "k < l" and Ik: "I k st" for k st
  proof -
    define s' where "s' = s + k * B"
    define e' where "e' = min (s' + B) e"
    have "k * B \<le> (l - 1) * B"
      using k B by (intro mult_right_mono) auto
    then have s'e: "s' < e" using lb(1) by (simp add: s'_def)
    have ss': "s \<le> s'" using k B by (simp add: s'_def)
    have s'e': "s' < e'" "e' \<le> e" using s'e B by (simp_all add: e'_def)
    have mk: "st = (\<lambda>a. if Out + s \<le> a \<and> a < Out + s' then T a else m a)"
      using Ik s'e by (simp add: I_def s'_def)
    have diff: "\<forall>a. st a \<noteq> m a \<longrightarrow> Out + s \<le> a \<and> a < Out + e \<and> \<not> (Out + s' \<le> a \<and> a < Out + e')"
      using s'e by (auto simp: mk)
    note sub = stable_sub[OF st ss' s'e'(2) diff]
    have gk: "map (g st) (rev [x..e' - 1]) = map (g m) (rev [x..e' - 1])" if "s' \<le> x" for x
      using sub(2) that by (intro map_cong) auto
    have sd: "seed k = foldl f z (map (g m) (rev [e'..e - 1]))"
      using seed k by (simp add: l_def s'_def e'_def)
    have pt: "foldl f (seed k) (map (g st) (rev [x..e' - 1])) = foldl f z (map (g m) (rev [x..e - 1]))"
      if "s' \<le> x" "x \<le> e'" for x
    proof -
      have "[x..e - 1] = [x..e' - 1] @ [e'..e - 1]"
        using upto_cat[of x e' "e - 1"] that s'e'(2) by simp
      then show ?thesis
        by (simp only: sd gk[OF that(1)] rev_append map_append foldl_append)
    qed
    have "fst (scanSerial st Out s' e' f g (seed k) inclusive True)
          = scan_back_mem st Out s' e' f (g st) (seed k) inclusive"
      by (simp add: scanSerial_backward[OF sub(1)])
    also have "\<dots> = (\<lambda>a. if Out + s \<le> a \<and> a < Out + e' then T a else m a)"
    proof
      fix a
      show "scan_back_mem st Out s' e' f (g st) (seed k) inclusive a
            = (if Out + s \<le> a \<and> a < Out + e' then T a else m a)"
      proof (cases "Out + s' \<le> a \<and> a < Out + e'")
        case True
        then have "s' \<le> a - Out + (if inclusive then 0 else 1)"
          "a - Out + (if inclusive then 0 else 1) \<le> e'"
          by auto
        from pt[OF this] True ss' s'e'(2) show ?thesis
          by (simp add: scan_back_mem_def T_def)
      next
        case False
        then show ?thesis
          using ss' s'e'(1) by (auto simp: mk scan_back_mem_def)
      qed
    qed
    finally have "fst (scanSerial st Out s' e' f g (seed k) inclusive True)
          = (\<lambda>a. if Out + s \<le> a \<and> a < Out + e' then T a else m a)" .
    moreover have "min (s + (k + 1) * B) e = e'"
      by (simp add: e'_def s'_def algebra_simps)
    ultimately show ?thesis
      by (simp add: I_def Let_def s'_def[symmetric] e'_def[symmetric])
  qed
  have "I l (for_loop 0 l (\<lambda>i st. let s' = s + i * B; e' = min (s' + B) e
                  in fst (scanSerial st Out s' e' f g (seed i) inclusive True)) m)"
    using lb(3) by (intro for_loop_rule[where I = I, OF _ init] step) auto
  moreover have "min (s + l * B) e = e"
    using lb by simp
  moreover have "(\<lambda>a. if Out + s \<le> a \<and> a < Out + e then T a else m a) = T"
    by (auto simp: T_def scan_back_mem_def fun_eq_iff)
  ultimately show ?thesis
    by (simp add: I_def blocked_for_def parallel_for_def Let_def l_def T_def)
qed

text \<open>
  For a combiner that is associative and commutative the backward scan is right on every
  number of blocks.
\<close>

lemma scan_backward_ac:
  "\<forall>a b c. f (f a b) c = f a (f b c) \<Longrightarrow> \<forall>a b. f a b = f b a \<Longrightarrow> bk \<Longrightarrow> stable g m Out s e \<Longrightarrow>
   scan m Out s e f g z inclusive bk
   = (scan_back_mem m Out s e f (g m) z inclusive, foldl f z (map (g m) (rev [s..e - 1])))"
proof (induction m Out s e f g z inclusive bk rule: scan.induct)
  case (1 m Out s e f g z inclusive bk)
  note assoc = 1(2) and comm = 1(3) and bk = 1(4) and st = 1(5)
  note revf = foldl_rev_ac[OF assoc comm]
  define l where "l = nblocks (e - s) SCAN_BSIZE"
  show ?case
  proof (cases "l \<le> 2")
    case True
    then show ?thesis
      using bk by (subst scan.simps) (simp add: l_def scan_route_def scanSerial_backward[OF st])
  next
    case False
    define Sums :: "int \<Rightarrow> 'a" where
      "Sums = blocked_for s e SCAN_BSIZE (\<lambda>i s e Sums. Sums(i := reduceSerial s e f (g m)))
                (newA l)"
    have B: "0 < SCAN_BSIZE" by (simp add: SCAN_BSIZE_eq)
    have big: "SCAN_BSIZE < e - s"
      using nblocks_gt_1[OF B, of "e - s"] False by (simp add: l_def)
    then have n: "0 < e - s" and se: "s < e" using B by simp_all
    have lb: "(l - 1) * SCAN_BSIZE < e - s" "e - s \<le> l * SCAN_BSIZE"
      using nblocks_bounds[OF n B] by (simp_all add: l_def)
    have S: "Sums i = reduceSerial (s + i * SCAN_BSIZE) (min (s + i * SCAN_BSIZE + SCAN_BSIZE) e) f (g m)"
      if "0 \<le> i" "i < l" for i
      using that by (simp add: Sums_def blocked_for_upd l_def)
    have suf: "foldl f z (map Sums (rev [k..l - 1]))
               = foldl f z (map (g m) (rev [min (s + k * SCAN_BSIZE) e..e - 1]))"
      if "0 \<le> k" "k \<le> l" for k
    proof -
      have ms: "map Sums [k..l - 1]
          = map (\<lambda>i. reduceSerial (s + i * SCAN_BSIZE) (min (s + i * SCAN_BSIZE + SCAN_BSIZE) e) f (g m)) [k..l - 1]"
        using S that by (intro map_cong) auto
      have c: "s + (l - 1) * SCAN_BSIZE < e \<or> l = k"
        using lb by simp
      have "foldl f z (map Sums [k..l - 1])
            = foldl f z (map (g m) [s + k * SCAN_BSIZE..min (s + l * SCAN_BSIZE) e - 1])"
        unfolding ms by (rule block_sums_fold[OF assoc B that c])
      moreover have "min (s + l * SCAN_BSIZE) e = e"
        using lb by simp
      moreover have "[s + k * SCAN_BSIZE..e - 1] = [min (s + k * SCAN_BSIZE) e..e - 1]"
        by (cases "s + k * SCAN_BSIZE \<le> e") simp_all
      ultimately show ?thesis
        by (simp add: rev_map[symmetric] revf)
    qed
    have getS: "getA 0 Sums = Sums"
      by (simp add: getA_def fun_eq_iff)
    have "scan Sums 0 0 l f (getA 0) z False bk
       = (scan_back_mem Sums 0 0 l f (getA 0 Sums) z False,
          foldl f z (map (getA 0 Sums) (rev [0..l - 1])))"
      using 1(1)[OF refl refl _ refl refl assoc comm bk stable_getA_same] False
      by (simp add: l_def scan_route_def Sums_def)
    then have rec: "scan Sums 0 0 l f (getA 0) z False bk
       = (scan_back_mem Sums 0 0 l f Sums z False, foldl f z (map Sums (rev [0..l - 1])))"
      by (simp only: getS)
    have total: "foldl f z (map Sums (rev [0..l - 1])) = foldl f z (map (g m) (rev [s..e - 1]))"
      using suf[of 0] False se by simp
    have seed: "\<forall>k. 0 \<le> k \<and> k < nblocks (e - s) SCAN_BSIZE
        \<longrightarrow> scan_back_mem Sums 0 0 l f Sums z False k
            = foldl f z (map (g m) (rev [min (s + k * SCAN_BSIZE + SCAN_BSIZE) e..e - 1]))"
    proof (intro allI impI)
      fix k
      assume k: "0 \<le> k \<and> k < nblocks (e - s) SCAN_BSIZE"
      have "min (s + (k + 1) * SCAN_BSIZE) e = min (s + k * SCAN_BSIZE + SCAN_BSIZE) e"
        by (simp add: algebra_simps)
      with suf[of "k + 1"] k
      show "scan_back_mem Sums 0 0 l f Sums z False k
            = foldl f z (map (g m) (rev [min (s + k * SCAN_BSIZE + SCAN_BSIZE) e..e - 1]))"
        by (simp add: scan_back_mem_def l_def)
    qed
    have "scan m Out s e f g z inclusive bk
          = (blocked_for s e SCAN_BSIZE
               (\<lambda>i s e m. fst (scanSerial m Out s e f g
                   (scan_back_mem Sums 0 0 l f Sums z False i) inclusive bk)) m,
             foldl f z (map Sums (rev [0..l - 1])))"
      using False
      by (subst scan.simps) (simp add: l_def[symmetric] scan_route_def Sums_def[symmetric] Let_def rec)
    then show ?thesis
      using bk by (simp add: total scan_blocks_backward[OF st B se seed])
  qed
qed

lemma scanBack_mirrors_ac:
  assumes "\<forall>a b c. f (f a b) c = f a (f b c)" and "\<forall>a b. f a b = f b a"
    and "In + n \<le> Out \<or> Out + n \<le> In"
    and "\<forall>j. 0 \<le> j \<and> j < n \<longrightarrow> mr (In + j) = m (In + (n - 1 - j))"
  shows "snd (scanBack m In Out n f z) = snd (scan_arr mr In Out n f z)"
    and "0 \<le> i \<Longrightarrow> i < n \<Longrightarrow>
         fst (scanBack m In Out n f z) (Out + i) = fst (scan_arr mr In Out n f z) (Out + (n - 1 - i))"
    and "0 \<le> i \<Longrightarrow> i < n \<Longrightarrow>
         fst (scanIBack m In Out n f z) (Out + i) = fst (scanI mr In Out n f z) (Out + (n - 1 - i))"
proof -
  have st: "stable (getA In) m Out 0 n" "stable (getA In) mr Out 0 n"
    using assms(3) by (auto intro!: stable_getA_apart)
  have m: "map (getA In mr) [0..k] = map (getA In m) (rev [n - 1 - k..n - 1])" if "k < n" for k
  proof -
    have "map (getA In mr) [0..k] = map (\<lambda>j. getA In m (n - 1 - j)) [0..k]"
      using assms(4) that by (intro map_cong) (auto simp: getA_def)
    also have "\<dots> = map (getA In m) (map (\<lambda>j. n - 1 - j) [0..k])"
      by (simp add: comp_def)
    also have "map (\<lambda>j. n - 1 - j) [0..k] = rev [n - 1 - k..n - 1]"
      using rev_upto_map[of "n - 1" 0 k] by simp
    finally show ?thesis .
  qed
  note b = scan_backward_ac[OF assms(1,2) _ st(1)] and fw = scan_forward[OF assms(1) _ st(2)]
  show "snd (scanBack m In Out n f z) = snd (scan_arr mr In Out n f z)"
    using m[of "n - 1"]
    by (simp add: scanBack_def scan_arr_def b fw)
  show "fst (scanBack m In Out n f z) (Out + i) = fst (scan_arr mr In Out n f z) (Out + (n - 1 - i))"
    if "0 \<le> i" "i < n"
    using m[of "n - 1 - i - 1"] that
    by (simp add: scanBack_def scan_arr_def b fw scan_back_mem_def scan_fwd_mem_def algebra_simps)
  show "fst (scanIBack m In Out n f z) (Out + i) = fst (scanI mr In Out n f z) (Out + (n - 1 - i))"
    if "0 \<le> i" "i < n"
    using m[of "n - 1 - i"] that
    by (simp add: scanIBack_def scanI_def b fw scan_back_mem_def scan_fwd_mem_def algebra_simps)
qed

text \<open>
  C5 does not hold on the code. The combiner \<open>\<lambda>a b. b\<close> is associative. On the array
  \<open>A[i] = i\<close> of 2049 elements (3 blocks) \<open>scanBack\<close> returns the total 1023 and leaves 2047
  in \<open>Out[1023]\<close>, while the forward scan of the reversed array returns 0 and, reversed
  back, has 1024 at position 1023 (its cell \<open>2048 - 1023\<close>): the block sums of the blocked
  path are folded left to right also when the scan runs backward.
\<close>

theorem scanBack_blocked_diverges:
  "snd (scanBack (\<lambda>a. a) 0 4096 2049 (\<lambda>a b. b) (- 1)) = (1023::int)
   \<and> snd (scan_arr (\<lambda>a. 2048 - a) 0 4096 2049 (\<lambda>a b. b) (- 1)) = (0::int)
   \<and> fst (scanBack (\<lambda>a. a) 0 4096 2049 (\<lambda>a b. b) (- 1)) (4096 + 1023) = (2047::int)
   \<and> fst (scan_arr (\<lambda>a. 2048 - a) 0 4096 2049 (\<lambda>a b. b) (- 1)) (4096 + (2048 - 1023))
       = (1024::int)"
  using blocked_back_total blocked_back_cell reversed_forward_values by simp

section \<open>Counting flags\<close>

lemma lane_shift: "signed_drop_bit k (w :: 32 word) AND 255 = drop_bit k w AND 255" if "k \<le> 24"
proof -
  have m: "(255 :: 32 word) = mask 8" by (simp add: mask_eq_exp_minus_1)
  show ?thesis
    unfolding m using that
    by (intro bit_word_eqI) (auto simp: bit_simps)
qed

lemma lane_value: "uint (drop_bit k (w :: 32 word) AND 255) = uint w div 2 ^ k mod 256"
proof -
  have m: "(255 :: 32 word) = mask 8" by (simp add: mask_eq_exp_minus_1)
  have "uint (drop_bit k w) = drop_bit k (take_bit LENGTH(32) (uint w))"
    by (rule unsigned_drop_bit_eq)
  also have "take_bit LENGTH(32) (uint w) = uint w"
    by (simp add: take_bit_int_eq_self uint_lt2p[where 'a = 32, simplified])
  finally have "uint (drop_bit k w) = uint w div 2 ^ k"
    by (simp only: drop_bit_eq_div)
  moreover have "uint (drop_bit k w) mod 256 < 2 ^ 32" "0 \<le> uint (drop_bit k w) mod 256"
    by (simp_all add: pos_mod_bound[THEN less_trans])
  ultimately show ?thesis
    unfolding m by (simp add: and_mask_mod_2p uint_word_of_int)
qed

lemma word_sum_fold:
  "fold (\<lambda>j rr. rr + w j) xs (rr0 :: 32 word) = rr0 + word_of_int (sum_list (map (\<lambda>j. uint (w j)) xs))"
  by (induction xs arbitrary: rr0) (simp_all add: algebra_simps)

lemma uint_load_int:
  "uint (load_int fm p) = of_bool (fm p) + 256 * of_bool (fm (p + 1)) + 65536 * of_bool (fm (p + 2))
     + 16777216 * of_bool (fm (p + 3))"
  by (cases "fm p"; cases "fm (p + 1)"; cases "fm (p + 2)"; cases "fm (p + 3)")
    (simp_all add: load_int_def)

lemma of_bool_sum_bounds:
  "0 \<le> sum_list (map (\<lambda>j. of_bool (P j) :: int) xs)
   \<and> sum_list (map (\<lambda>j. of_bool (P j) :: int) xs) \<le> int (length xs)"
  by (induction xs) auto

lemma byte_split: "0 \<le> a \<Longrightarrow> a < 256 \<Longrightarrow> (a + 256 * b) div 256 = b \<and> (a + 256 * b) mod 256 = a" for a b :: int
  by simp

lemma lane_arith:
  fixes c0 c1 c2 c3 :: int
  assumes "0 \<le> c0" "c0 \<le> 128" "0 \<le> c1" "c1 \<le> 128" "0 \<le> c2" "c2 \<le> 128" "0 \<le> c3" "c3 \<le> 128"
  shows "(c0 + 256 * c1 + 65536 * c2 + 16777216 * c3) div 2 ^ 0 mod 256 = c0"
    and "(c0 + 256 * c1 + 65536 * c2 + 16777216 * c3) div 2 ^ 8 mod 256 = c1"
    and "(c0 + 256 * c1 + 65536 * c2 + 16777216 * c3) div 2 ^ 16 mod 256 = c2"
    and "(c0 + 256 * c1 + 65536 * c2 + 16777216 * c3) div 2 ^ 24 mod 256 = c3"
proof -
  define V where "V = c0 + 256 * c1 + 65536 * c2 + 16777216 * c3"
  have V0: "V = c0 + 256 * (c1 + 256 * (c2 + 256 * c3))"
    by (simp add: V_def)
  have d1: "V div 256 = c1 + 256 * (c2 + 256 * c3)" and m0: "V mod 256 = c0"
    using byte_split[of c0 "c1 + 256 * (c2 + 256 * c3)"] assms unfolding V0 by auto
  have d2: "V div 256 div 256 = c2 + 256 * c3" and m1: "V div 256 mod 256 = c1"
    using byte_split[of c1 "c2 + 256 * c3"] assms unfolding d1 by auto
  have d3: "V div 256 div 256 div 256 = c3" and m2: "V div 256 div 256 mod 256 = c2"
    using byte_split[of c2 c3] assms unfolding d2 by auto
  have m3: "V div 256 div 256 div 256 mod 256 = c3"
    using assms unfolding d3 by simp
  have p: "V div 2 ^ 8 = V div 256" "V div 2 ^ 16 = V div 256 div 256"
    "V div 2 ^ 24 = V div 256 div 256 div 256"
    by (simp_all add: div_mult2_eq[symmetric])
  show "(c0 + 256 * c1 + 65536 * c2 + 16777216 * c3) div 2 ^ 0 mod 256 = c0"
    using m0 by (simp add: V_def)
  show "(c0 + 256 * c1 + 65536 * c2 + 16777216 * c3) div 2 ^ 8 mod 256 = c1"
    using m1 p(1) by (simp only: V_def)
  show "(c0 + 256 * c1 + 65536 * c2 + 16777216 * c3) div 2 ^ 16 mod 256 = c2"
    using m2 p(2) by (simp only: V_def)
  show "(c0 + 256 * c1 + 65536 * c2 + 16777216 * c3) div 2 ^ 24 mod 256 = c3"
    using m3 p(3) by (simp only: V_def)
qed

lemma lanes_sum:
  fixes c0 c1 c2 c3 :: int
  assumes "0 \<le> c0" "c0 \<le> 128" "0 \<le> c1" "c1 \<le> 128" "0 \<le> c2" "c2 \<le> 128" "0 \<le> c3" "c3 \<le> 128"
    and rr: "rr = (word_of_int (c0 + 256 * c1 + 65536 * c2 + 16777216 * c3) :: 32 word)"
  shows "sint ((rr AND 255) + (signed_drop_bit 8 rr AND 255) + (signed_drop_bit 16 rr AND 255)
               + (signed_drop_bit 24 rr AND 255)) = c0 + c1 + c2 + c3"
proof -
  define V where "V = c0 + 256 * c1 + 65536 * c2 + 16777216 * c3"
  have V: "0 \<le> V" "V < 2 ^ 32"
    using assms(1-8) by (simp_all add: V_def)
  have u: "uint rr = V"
    using V by (simp add: rr V_def[symmetric] uint_word_of_int)
  have l0: "rr AND 255 = word_of_int c0"
  proof -
    have "uint (drop_bit 0 rr AND 255) = c0"
      unfolding lane_value u V_def using assms(1-8) by (rule lane_arith(1))
    then show ?thesis by (metis drop_bit_0 id_apply word_of_int_uint)
  qed
  have l1: "signed_drop_bit 8 rr AND 255 = word_of_int c1"
  proof -
    have "V div 2 ^ 8 mod 256 = c1"
      unfolding V_def using assms(1-8) by (rule lane_arith(2))
    then have "uint (drop_bit 8 rr AND 255) = c1"
      unfolding lane_value u .
    then show ?thesis by (metis lane_shift[of 8 rr, simplified] word_of_int_uint)
  qed
  have l2: "signed_drop_bit 16 rr AND 255 = word_of_int c2"
  proof -
    have "V div 2 ^ 16 mod 256 = c2"
      unfolding V_def using assms(1-8) by (rule lane_arith(3))
    then have "uint (drop_bit 16 rr AND 255) = c2"
      unfolding lane_value u .
    then show ?thesis by (metis lane_shift[of 16 rr, simplified] word_of_int_uint)
  qed
  have l3: "signed_drop_bit 24 rr AND 255 = word_of_int c3"
  proof -
    have "V div 2 ^ 24 mod 256 = c3"
      unfolding V_def using assms(1-8) by (rule lane_arith(4))
    then have "uint (drop_bit 24 rr AND 255) = c3"
      unfolding lane_value u .
    then show ?thesis by (metis lane_shift[of 24 rr, simplified] word_of_int_uint)
  qed
  have "signed_take_bit (31::nat) (c0 + c1 + c2 + c3) = c0 + c1 + c2 + c3"
    using assms(1-8) by (intro signed_take_bit_int_eq_self) simp_all
  then have "sint (word_of_int (c0 + c1 + c2 + c3) :: 32 word) = c0 + c1 + c2 + c3"
    by (simp only: sint_sbintrunc') simp
  then show ?thesis
    by (simp only: l0 l1 l2 l3 of_int_add)
qed

lemma count_filter: "sum_list (map (\<lambda>i. of_bool (P i) :: int) xs) = int (length (filter P xs))"
  by (induction xs) auto

lemma upto_shift: "[a + i..a + j] = map ((+) a) [i..j]"
proof (induction "nat (j - i + 1)" arbitrary: j)
  case 0
  then show ?case by simp
next
  case (Suc d)
  then have ij: "i \<le> j" by simp
  have "[a + i..a + (j - 1)] = map ((+) a) [i..j - 1]"
    using Suc(1)[of "j - 1"] Suc(2) by simp
  then show ?case
    using ij upto_rec2[of i j] upto_rec2[of "a + i" "a + j"] by (simp add: algebra_simps)
qed

lemma count_append:
  assumes "0 \<le> a" "0 \<le> b"
  shows "sum_list (map (\<lambda>i. of_bool (fm (p + i)) :: int) [0..a + b - 1])
         = sum_list (map (\<lambda>i. of_bool (fm (p + i))) [0..a - 1])
           + sum_list (map (\<lambda>i. of_bool (fm (p + a + i))) [0..b - 1])"
proof -
  have "[0..a + b - 1] = [0..a - 1] @ [a..a + b - 1]"
    using assms upto_cat[of 0 a "a + b - 1"] by simp
  moreover have "[a..a + b - 1] = map ((+) a) [0..b - 1]"
    using upto_shift[of a 0 "b - 1"] by (simp add: algebra_simps)
  ultimately show ?thesis
    by (simp add: comp_def algebra_simps)
qed

lemma sum_by_fours:
  "sum_list (map h [0..4 * int K - 1])
   = sum_list (map (\<lambda>j. h (4 * j) + h (4 * j + 1) + h (4 * j + 2) + h (4 * j + 3)) [0..int K - 1] :: int list)"
proof (induction K)
  case 0
  then show ?case by simp
next
  case (Suc K)
  have "[0..4 * int (Suc K) - 1] = [0..4 * int K - 1] @ [4 * int K, 4 * int K + 1, 4 * int K + 2, 4 * int K + 3]"
    using upto_cat[of 0 "4 * int K" "4 * int K + 3"] by (simp add: upto_rec1 algebra_simps)
  moreover have "[0..int (Suc K) - 1] = [0..int K - 1] @ [int K]"
    using upto_rec2[of 0 "int K"] by simp
  ultimately show ?case
    using Suc by simp
qed

lemma loads_sum:
  "sum_list (map (\<lambda>j. uint (load_int fm (q + 4 * j))) xs)
   = sum_list (map (\<lambda>j. of_bool (fm (q + 4 * j))) xs)
     + 256 * sum_list (map (\<lambda>j. of_bool (fm (q + 4 * j + 1))) xs)
     + 65536 * sum_list (map (\<lambda>j. of_bool (fm (q + 4 * j + 2))) xs)
     + 16777216 * sum_list (map (\<lambda>j. of_bool (fm (q + 4 * j + 3))) xs)"
  by (induction xs) (simp_all add: uint_load_int algebra_simps)

lemma block_count:
  "sint (let rr = (0 :: 32 word);
             rr = for_loop 0 128 (\<lambda>j rr. rr + load_int fm (q + 4 * j)) rr
         in (rr AND 255) + (signed_drop_bit 8 rr AND 255) + (signed_drop_bit 16 rr AND 255)
              + (signed_drop_bit 24 rr AND 255))
   = sum_list (map (\<lambda>i. of_bool (fm (q + i))) [0..511])"
proof -
  define c where "c t = sum_list (map (\<lambda>j. of_bool (fm (q + 4 * j + t)) :: int) [0..127])" for t
  have b: "0 \<le> c t" "c t \<le> 128" for t
    using of_bool_sum_bounds[of "\<lambda>j. fm (q + 4 * j + t)" "[0..127]"] by (simp_all add: c_def)
  have rr: "for_loop 0 128 (\<lambda>j rr. rr + load_int fm (q + 4 * j)) (0 :: 32 word)
            = word_of_int (c 0 + 256 * c 1 + 65536 * c 2 + 16777216 * c 3)"
    by (simp only: for_loop_fold word_sum_fold loads_sum c_def) simp
  have "c 0 + c 1 + c 2 + c 3
        = sum_list (map (\<lambda>j. of_bool (fm (q + 4 * j)) + of_bool (fm (q + (4 * j + 1)))
              + of_bool (fm (q + (4 * j + 2))) + of_bool (fm (q + (4 * j + 3)))) [0..int 128 - 1])"
    by (simp add: c_def sum_list_addf algebra_simps)
  also have "\<dots> = sum_list (map (\<lambda>i. of_bool (fm (q + i))) [0..4 * int 128 - 1])"
    using sum_by_fours[of "\<lambda>i. of_bool (fm (q + i))" 128] by simp
  finally have "c 0 + c 1 + c 2 + c 3 = sum_list (map (\<lambda>i. of_bool (fm (q + i))) [0..511])"
    by simp
  then show ?thesis
    using lanes_sum[OF b(1) b(2) b(1) b(2) b(1) b(2) b(1) b(2) rr]
    by (simp only: Let_def)
qed

lemma plain_count:
  "for_loop 0 n (\<lambda>j r. r + of_bool (fm (Fl + j))) (0::int)
   = sum_list (map (\<lambda>i. of_bool (fm (Fl + i))) [0..n - 1])"
proof -
  have "fold (\<lambda>j r. r + of_bool (fm (Fl + j))) xs (r::int)
        = r + sum_list (map (\<lambda>i. of_bool (fm (Fl + i))) xs)" for xs r
    by (induction xs arbitrary: r) simp_all
  then show ?thesis
    by (simp add: for_loop_fold)
qed

lemma batched_count:
  assumes "0 \<le> K"
  shows "for_loop 0 K
          (\<lambda>k (IFl, r).
             let rr = (0 :: 32 word);
                 rr = for_loop 0 128 (\<lambda>j rr. rr + load_int fm (IFl + 4 * j)) rr;
                 r = r + sint ((rr AND 255) + (signed_drop_bit 8 rr AND 255)
                               + (signed_drop_bit 16 rr AND 255)
                               + (signed_drop_bit 24 rr AND 255));
                 IFl = IFl + 4 * 128
             in (IFl, r))
          (Fl, 0)
         = (Fl + 512 * K, sum_list (map (\<lambda>i. of_bool (fm (Fl + i))) [0..512 * K - 1]))"
proof -
  define I where "I k st \<longleftrightarrow>
     st = (Fl + 512 * k, sum_list (map (\<lambda>i. of_bool (fm (Fl + i)) :: int) [0..512 * k - 1]))" for k st
  define body where "body = (\<lambda>(k::int) (IFl, r).
             let rr = (0 :: 32 word);
                 rr = for_loop 0 128 (\<lambda>j rr. rr + load_int fm (IFl + 4 * j)) rr;
                 r = r + sint ((rr AND 255) + (signed_drop_bit 8 rr AND 255)
                               + (signed_drop_bit 16 rr AND 255)
                               + (signed_drop_bit 24 rr AND 255));
                 IFl = IFl + 4 * 128
             in (IFl, r))"
  have init: "I 0 (Fl, 0)"
    by (simp add: I_def)
  have step: "I (k + 1) (body k st)" if "0 \<le> k" "k < K" "I k st" for k st
  proof -
    have st: "st = (Fl + 512 * k, sum_list (map (\<lambda>i. of_bool (fm (Fl + i)) :: int) [0..512 * k - 1]))"
      using that(3) by (simp add: I_def)
    have "body k st = (Fl + 512 * k + 4 * 128,
        sum_list (map (\<lambda>i. of_bool (fm (Fl + i)) :: int) [0..512 * k - 1])
        + sum_list (map (\<lambda>i. of_bool (fm (Fl + 512 * k + i))) [0..511]))"
      unfolding st body_def using block_count[of fm "Fl + 512 * k"]
      by (simp only: Let_def prod.case)
    moreover have "sum_list (map (\<lambda>i. of_bool (fm (Fl + i)) :: int) [0..512 * k + 512 - 1])
        = sum_list (map (\<lambda>i. of_bool (fm (Fl + i))) [0..512 * k - 1])
          + sum_list (map (\<lambda>i. of_bool (fm (Fl + 512 * k + i))) [0..512 - 1])"
      using that(1) by (intro count_append) simp_all
    ultimately show ?thesis
      by (simp add: I_def algebra_simps)
  qed
  have "I K (for_loop 0 K body (Fl, 0))"
    using assms by (intro for_loop_rule[where I = I, OF _ init] step) auto
  then show ?thesis
    by (simp add: I_def body_def)
qed

lemma sumFlagsSerial_sum:
  "sumFlagsSerial fm Fl n = sum_list (map (\<lambda>i. of_bool (fm (Fl + i))) [0..n - 1])"
proof (cases "n \<ge> 128 \<and> n AND 511 = 0 \<and> Fl AND 3 = 0")
  case False
  show ?thesis
    unfolding sumFlagsSerial_def Let_def if_not_P[OF False] by (rule plain_count)
next
  case True
  have "n AND mask 9 = n mod 2 ^ 9"
    by (simp only: take_bit_eq_mod flip: take_bit_eq_mask)
  moreover have "mask 9 = (511::int)"
    by (simp add: mask_eq_exp_minus_1)
  ultimately have "n AND 511 = n mod 512"
    by simp
  then have "n mod 512 = 0"
    using True by simp
  then have n: "512 * (n div 512) = n"
    using mult_div_mod_eq[of 512 n] by simp
  have K: "0 \<le> n div 512"
    using True by (simp add: pos_imp_zdiv_nonneg_iff)
  have dk: "drop_bit 9 n = n div 512"
    by (simp add: drop_bit_eq_div)
  show ?thesis
    unfolding sumFlagsSerial_def Let_def if_P[OF True] dk batched_count[OF K, unfolded Let_def] n
    by (simp only: snd_conv)
qed

text \<open>
  C7. For every flags memory (each flag a byte holding 0 or 1), every pointer \<open>Fl\<close> and every
  length \<open>n\<close>, \<open>sumFlagsSerial(Fl, n)\<close> returns the number of true flags in \<open>Fl[0..n)\<close>: the
  batched path, taken when \<open>n \<ge> 128\<close>, \<open>n\<close> is a multiple of 512 and \<open>Fl\<close> is 4-byte aligned,
  computes the same count as the per-element loop taken otherwise.
\<close>

theorem sumFlagsSerial_counts_true_flags:
  "sumFlagsSerial fm Fl n = int (length (filter (\<lambda>i. fm (Fl + i)) [0..n - 1]))
   \<and> sumFlagsSerial fm Fl n = for_loop 0 n (\<lambda>j r. r + of_bool (fm (Fl + j))) 0"
  by (simp add: sumFlagsSerial_sum plain_count count_filter)

theorem sumFlagsSerial_counts_true_flags_witness:
  "sumFlagsSerial (\<lambda>_. True) 0 1024 = 1024 \<and> sumFlagsSerial (\<lambda>a. a < 3) 1 5 = 2"
proof -
  have "int (length (filter (\<lambda>i. True) [0..1024 - 1])) = 1024"
    by (simp del: upto_rec_numeral)
  moreover have "int (length (filter (\<lambda>i. 1 + i < 3) [0..5 - 1])) = 2"
    by (simp add: upto_rec1)
  ultimately show ?thesis
    using sumFlagsSerial_counts_true_flags[of "\<lambda>_. True" 0 1024]
      sumFlagsSerial_counts_true_flags[of "\<lambda>a. a < 3" 1 5]
    by (simp only:)
qed

section \<open>Pack: stable compaction\<close>

lemma pack_mem_Nil: "pack_mem m p [] = m"
  by (auto simp add: pack_mem_def fun_eq_iff)

lemma pack_mem_append:
  "pack_mem (pack_mem m p xs) (p + int (length xs)) ys = pack_mem m p (xs @ ys)"
proof
  fix a
  show "pack_mem (pack_mem m p xs) (p + int (length xs)) ys a = pack_mem m p (xs @ ys) a"
  proof (cases "p + int (length xs) \<le> a \<and> a < p + int (length xs) + int (length ys)")
    case True
    then have "nat (a - p) = length xs + nat (a - (p + int (length xs)))"
      by linarith
    with True show ?thesis
      by (simp add: pack_mem_def nth_append)
  next
    case False
    then show ?thesis
      by (auto simp: pack_mem_def nth_append)
  qed
qed

lemma pack_mem_snoc: "(pack_mem m p xs)(p + int (length xs) := y) = pack_mem m p (xs @ [y])"
proof -
  have "(pack_mem m p xs)(p + int (length xs) := y) = pack_mem (pack_mem m p xs) (p + int (length xs)) [y]"
    by (auto simp: pack_mem_def fun_eq_iff)
  then show ?thesis
    by (simp add: pack_mem_append)
qed

lemma map_pack_mem: "map (pack_mem m p ys) [p..p + int (length ys) - 1] = ys"
  by (rule nth_equalityI) (simp_all add: pack_mem_def)

lemma packSerial_loop:
  "for_loop s e (\<lambda>i (m, k). if fm (Fl + i) then (m(Out + k := f i), k + 1) else (m, k)) (m, 0)
   = (pack_mem m Out (map f (filter (\<lambda>i. fm (Fl + i)) [s..e - 1])),
      int (length (filter (\<lambda>i. fm (Fl + i)) [s..e - 1])))"
proof (cases "s \<le> e")
  case False
  then show ?thesis
    by (simp add: for_loop_empty pack_mem_Nil)
next
  case True
  define I where "I i st \<longleftrightarrow>
     st = (pack_mem m Out (map f (filter (\<lambda>i. fm (Fl + i)) [s..i - 1])),
           int (length (filter (\<lambda>i. fm (Fl + i)) [s..i - 1])))" for i st
  have init: "I s (m, 0)"
    by (simp add: I_def pack_mem_Nil)
  have step: "I (i + 1) ((\<lambda>i (m, k). if fm (Fl + i) then (m(Out + k := f i), k + 1) else (m, k)) i st)"
    if "s \<le> i" "i < e" "I i st" for i st
  proof -
    have u: "[s..i + 1 - 1] = [s..i - 1] @ [i]"
      using that(1) by (simp add: upto_rec2)
    show ?thesis
      using that(3) pack_mem_snoc[of m Out "map f (filter (\<lambda>i. fm (Fl + i)) [s..i - 1])" "f i"]
      unfolding I_def u by (simp add: )
  qed
  have "I e (for_loop s e (\<lambda>i (m, k). if fm (Fl + i) then (m(Out + k := f i), k + 1) else (m, k)) (m, 0))"
    using True init step by (rule for_loop_rule)
  then show ?thesis
    by (simp add: I_def)
qed

lemma packSerial_eq:
  "packSerial m Out fm Fl s e f
   = (case Out of
        None \<Rightarrow> (pack_mem (newA 0) 0 (map f (filter (\<lambda>i. fm (Fl + i)) [s..e - 1])),
                 \<lparr>seq_A = 0, seq_n = int (length (filter (\<lambda>i. fm (Fl + i)) [s..e - 1]))\<rparr>)
      | Some p \<Rightarrow> (pack_mem m p (map f (filter (\<lambda>i. fm (Fl + i)) [s..e - 1])),
                 \<lparr>seq_A = p, seq_n = int (length (filter (\<lambda>i. fm (Fl + i)) [s..e - 1]))\<rparr>))"
  by (simp add: packSerial_def packSerial_loop newA_def split: option.splits)

lemma sumFlagsSerial_range:
  "sumFlagsSerial fm (Fl + s) (e - s) = int (length (filter (\<lambda>i. fm (Fl + i)) [s..e - 1]))"
proof -
  have "[s..e - 1] = map ((+) s) [0..e - s - 1]"
    using upto_shift[of s 0 "e - s - 1"] by simp
  then have "filter (\<lambda>i. fm (Fl + i)) [s..e - 1]
             = map ((+) s) (filter (\<lambda>i. fm (Fl + s + i)) [0..e - s - 1])"
    by (simp add: filter_map comp_def algebra_simps)
  then show ?thesis
    by (simp add: sumFlagsSerial_sum count_filter)
qed

lemma count_as_reduce:
  assumes "s < e"
  shows "int (length (filter P [s..e - 1])) = reduceSerial s e addF (\<lambda>i. of_bool (P i))"
proof -
  have "[s..e - 1] = s # [s + 1..e - 1]"
    using assms by (simp add: upto_rec1)
  then show ?thesis
    by (simp add: reduceSerial_foldl foldl_addF_sum count_filter[symmetric])
qed

lemma pack_eq:
  "pack m Out fm Fl s e f
   = (case Out of
        None \<Rightarrow> (pack_mem (newA 0) 0 (map f (filter (\<lambda>i. fm (Fl + i)) [s..e - 1])),
                 \<lparr>seq_A = 0, seq_n = int (length (filter (\<lambda>i. fm (Fl + i)) [s..e - 1]))\<rparr>)
      | Some p \<Rightarrow> (pack_mem m p (map f (filter (\<lambda>i. fm (Fl + i)) [s..e - 1])),
                 \<lparr>seq_A = p, seq_n = int (length (filter (\<lambda>i. fm (Fl + i)) [s..e - 1]))\<rparr>))"
proof (cases "nblocks (e - s) F_BSIZE \<le> 1")
  case True
  then show ?thesis
    by (simp add: pack_def pack_route_def packSerial_eq)
next
  case False
  define l where "l = nblocks (e - s) F_BSIZE"
  define P where "P = (\<lambda>i. fm (Fl + i))"
  define g :: "int \<Rightarrow> int" where "g = (\<lambda>i. of_bool (P i))"
  define Sums :: "int \<Rightarrow> int" where
    "Sums = blocked_for s e F_BSIZE (\<lambda>i s e Sums. Sums(i := sumFlagsSerial fm (Fl + s) (e - s))) (newA l)"
  define m0 where "m0 = (case Out of None \<Rightarrow> newA 0 | Some p \<Rightarrow> m)"
  define p where "p = (case Out of None \<Rightarrow> 0 | Some p \<Rightarrow> p)"
  have B: "0 < F_BSIZE" by (simp add: F_BSIZE_eq)
  have big: "F_BSIZE < e - s"
    using nblocks_gt_1[OF B, of "e - s"] False by simp
  then have n: "0 < e - s" and se: "s < e" using B by simp_all
  have lb: "(l - 1) * F_BSIZE < e - s" "e - s \<le> l * F_BSIZE" "1 \<le> l"
    using nblocks_bounds[OF n B] by (simp_all add: l_def)
  have add: "\<forall>a b c::int. addF (addF a b) c = addF a (addF b c)"
    by (simp add: addF_def)
  have blk: "s + i * F_BSIZE < e" if "0 \<le> i" "i < l" for i
  proof -
    have "i * F_BSIZE \<le> (l - 1) * F_BSIZE"
      using that B by (intro mult_right_mono) auto
    then show ?thesis using lb by simp
  qed
  have S: "Sums i = reduceSerial (s + i * F_BSIZE) (min (s + i * F_BSIZE + F_BSIZE) e) addF g"
    if "0 \<le> i" "i < l" for i
  proof -
    have "Sums i = sumFlagsSerial fm (Fl + (s + i * F_BSIZE))
                     (min (s + i * F_BSIZE + F_BSIZE) e - (s + i * F_BSIZE))"
      using that by (simp add: Sums_def blocked_for_upd l_def)
    also have "\<dots> = int (length (filter P [s + i * F_BSIZE..min (s + i * F_BSIZE + F_BSIZE) e - 1]))"
      unfolding P_def by (rule sumFlagsSerial_range)
    also have "\<dots> = reduceSerial (s + i * F_BSIZE) (min (s + i * F_BSIZE + F_BSIZE) e) addF g"
      unfolding g_def using blk[OF that] B by (intro count_as_reduce) simp
    finally show ?thesis .
  qed
  have pre: "foldl addF 0 (map Sums [0..k - 1]) = int (length (filter P [s..min (s + k * F_BSIZE) e - 1]))"
    if "0 \<le> k" "k \<le> l" for k
  proof -
    have ms: "map Sums [0..k - 1]
        = map (\<lambda>i. reduceSerial (s + i * F_BSIZE) (min (s + i * F_BSIZE + F_BSIZE) e) addF g) [0..k - 1]"
      using S that by (intro map_cong) auto
    have c: "s + (k - 1) * F_BSIZE < e \<or> k = 0"
      using blk[of "k - 1"] that by auto
    have "foldl addF 0 (map Sums [0..k - 1])
        = foldl addF 0 (map g [s + 0 * F_BSIZE..min (s + k * F_BSIZE) e - 1])"
      unfolding ms by (rule block_sums_fold[OF add B _ that(1) c]) simp
    then show ?thesis
      by (simp add: foldl_addF_sum g_def count_filter)
  qed
  have getS: "getA 0 Sums = Sums"
    by (simp add: getA_def fun_eq_iff)
  define Sums2 where "Sums2 = scan_fwd_mem Sums 0 0 l addF Sums 0 False"
  have ps: "plusScan Sums 0 0 l = (Sums2, int (length (filter P [s..e - 1])))"
    using pre[of l] lb
    by (simp add: plusScan_def scan_forward[OF add _ stable_getA_same] getS Sums2_def)
  have off: "Sums2 k = int (length (filter P [s..s + k * F_BSIZE - 1]))" if "0 \<le> k" "k < l" for k
    using pre[of k] that blk[OF that] by (simp add: Sums2_def scan_fwd_mem_def)
  define I where "I k st \<longleftrightarrow> st = pack_mem m0 p (map f (filter P [s..min (s + k * F_BSIZE) e - 1]))"
    for k st
  have init: "I 0 m0"
    by (simp add: I_def pack_mem_Nil)
  have step: "I (k + 1) ((\<lambda>i st. let s' = s + i * F_BSIZE; e' = min (s' + F_BSIZE) e
                  in fst (packSerial st (Some (p + Sums2 i)) fm Fl s' e' f)) k st)"
    if k: "0 \<le> k" "k < l" and Ik: "I k st" for k st
  proof -
    define s' where "s' = s + k * F_BSIZE"
    define e' where "e' = min (s' + F_BSIZE) e"
    have s'e: "s' < e" using blk[OF k] by (simp add: s'_def)
    have ss': "s \<le> s'" using k B by (simp add: s'_def)
    have st: "st = pack_mem m0 p (map f (filter P [s..s' - 1]))"
      using Ik s'e by (simp add: I_def s'_def)
    have cat: "[s..e' - 1] = [s..s' - 1] @ [s'..e' - 1]"
      using upto_cat[OF ss', of "e' - 1"] s'e B by (simp add: e'_def)
    have "fst (packSerial st (Some (p + Sums2 k)) fm Fl s' e' f)
          = pack_mem st (p + int (length (map f (filter P [s..s' - 1])))) (map f (filter P [s'..e' - 1]))"
      by (simp add: packSerial_eq off[OF k] s'_def P_def)
    also have "\<dots> = pack_mem m0 p (map f (filter P [s..e' - 1]))"
      unfolding st pack_mem_append cat by simp
    finally have "fst (packSerial st (Some (p + Sums2 k)) fm Fl s' e' f)
          = pack_mem m0 p (map f (filter P [s..e' - 1]))" .
    moreover have "min (s + (k + 1) * F_BSIZE) e = e'"
      by (simp add: e'_def s'_def algebra_simps)
    ultimately show ?thesis
      by (simp add: I_def Let_def s'_def[symmetric] e'_def[symmetric])
  qed
  have "I l (for_loop 0 l (\<lambda>i st. let s' = s + i * F_BSIZE; e' = min (s' + F_BSIZE) e
                  in fst (packSerial st (Some (p + Sums2 i)) fm Fl s' e' f)) m0)"
    using lb(3) by (intro for_loop_rule[where I = I, OF _ init] step) auto
  moreover have "min (s + l * F_BSIZE) e = e"
    using lb by simp
  ultimately have ph4: "blocked_for s e F_BSIZE
        (\<lambda>i s e m. fst (packSerial m (Some (p + Sums2 i)) fm Fl s e f)) m0
      = pack_mem m0 p (map f (filter P [s..e - 1]))"
    by (simp add: I_def blocked_for_def parallel_for_def Let_def l_def)
  have "pack m Out fm Fl s e f
        = (blocked_for s e F_BSIZE
             (\<lambda>i s e m. fst (packSerial m (Some (p + Sums2 i)) fm Fl s e f)) m0,
           \<lparr>seq_A = p, seq_n = int (length (filter P [s..e - 1]))\<rparr>)"
  proof -
    have nA: "(newA (int (length (filter P [s..e - 1]))) :: 'a mem) = newA 0"
      by (simp add: newA_def)
    show ?thesis
      using False
      by (simp add: pack_def pack_route_def l_def[symmetric] Sums_def[symmetric] ps Let_def
          m0_def p_def nA split: option.splits)
  qed
  then have "pack m Out fm Fl s e f
        = (pack_mem m0 p (map f (filter P [s..e - 1])),
           \<lparr>seq_A = p, seq_n = int (length (filter P [s..e - 1]))\<rparr>)"
    by (simp only: ph4)
  then show ?thesis
    by (simp add: m0_def p_def P_def split: option.splits)
qed

text \<open>
  C3. For every range \<open>[s, e)\<close>, flags and accessor \<open>f\<close>, \<open>pack\<close> returns a sequence whose
  length is the number of true flags of the range and whose elements are \<open>f(i)\<close> for the
  flagged indices \<open>i\<close> in increasing order, on the serial route and on the multi-block one;
  \<open>packSerial\<close> returns the same.
\<close>

theorem pack_is_stable_compaction:
  "seq_n (snd (pack m Out fm Fl s e f)) = int (length (filter (\<lambda>i. fm (Fl + i)) [s..e - 1]))
   \<and> map (fst (pack m Out fm Fl s e f))
        [seq_A (snd (pack m Out fm Fl s e f))..
         seq_A (snd (pack m Out fm Fl s e f)) + seq_n (snd (pack m Out fm Fl s e f)) - 1]
      = map f (filter (\<lambda>i. fm (Fl + i)) [s..e - 1])
   \<and> packSerial m Out fm Fl s e f = pack m Out fm Fl s e f"
proof -
  have "map (pack_mem m0 p (map f ys)) [p..p + int (length ys) - 1] = map f ys" for m0 p and ys :: "int list"
    using map_pack_mem[of m0 p "map f ys"] by simp
  from this[of _ 0] this show ?thesis
    by (simp add: pack_eq packSerial_eq split: option.splits)
qed

theorem pack_is_stable_compaction_witness:
  "seq_n (snd (pack (\<lambda>_. 0::int) (Some 100) (\<lambda>a. a = 0 \<or> a = 2) 0 0 4 (\<lambda>i. [10, 20, 30, 40] ! nat i))) = 2
   \<and> map (fst (pack (\<lambda>_. 0::int) (Some 100) (\<lambda>a. a = 0 \<or> a = 2) 0 0 4 (\<lambda>i. [10, 20, 30, 40] ! nat i)))
         [100..100 + 2 - 1] = [10, 30]"
proof -
  note w = pack_is_stable_compaction[of "\<lambda>_. 0::int" "Some 100" "\<lambda>a. a = 0 \<or> a = 2" 0 0 4
        "\<lambda>i. [10, 20, 30, 40] ! nat i"]
  have s: "seq_A (snd (pack (\<lambda>_. 0::int) (Some 100) (\<lambda>a. a = 0 \<or> a = 2) 0 0 4
              (\<lambda>i. [10, 20, 30, 40] ! nat i))) = 100"
    by (simp add: pack_eq)
  have f: "filter (\<lambda>i. 0 + i = 0 \<or> 0 + i = 2) [0..4 - 1] = [0, 2]"
    by (simp add: upto_rec1)
  have n: "seq_n (snd (pack (\<lambda>_. 0::int) (Some 100) (\<lambda>a. a = 0 \<or> a = 2) 0 0 4
              (\<lambda>i. [10, 20, 30, 40] ! nat i))) = 2"
    using w[THEN conjunct1] unfolding f by simp
  show ?thesis
    using w[THEN conjunct2, THEN conjunct1] unfolding s n f by (simp add: n)
qed

section \<open>Routes and the empty range\<close>

text \<open>
  C6, as amended. \<open>reduce\<close> takes its serial routine exactly when the block count (in
  blocks of \<open>_SCAN_BSIZE\<close>) is at most 1, \<open>scan\<close> exactly when it is at most 2, and \<open>pack\<close>
  exactly when its block count (in blocks of \<open>_F_BSIZE\<close>) is at most 1; on the serial
  route each operation is its serial routine, for every combiner and accessor.
\<close>

theorem serial_routes:
  "(reduce_route (nblocks (e - s) SCAN_BSIZE) = Serial \<longleftrightarrow> nblocks (e - s) SCAN_BSIZE \<le> 1)
   \<and> (scan_route (nblocks (e - s) SCAN_BSIZE) = Serial \<longleftrightarrow> nblocks (e - s) SCAN_BSIZE \<le> 2)
   \<and> (pack_route (nblocks (e - s) F_BSIZE) = Serial \<longleftrightarrow> nblocks (e - s) F_BSIZE \<le> 1)
   \<and> (nblocks (e - s) SCAN_BSIZE \<le> 1 \<longrightarrow> reduce s e f g = reduceSerial s e f g)
   \<and> (nblocks (e - s) SCAN_BSIZE \<le> 2 \<longrightarrow>
        scan m Out s e f h z inclusive bk = scanSerial m Out s e f h z inclusive bk)
   \<and> (nblocks (e - s) F_BSIZE \<le> 1 \<longrightarrow> pack m' Out' fm Fl s e f' = packSerial m' Out' fm Fl s e f')"
  by (simp add: reduce_route_def scan_route_def pack_route_def reduce.simps scan.simps pack_def)

theorem serial_routes_witness:
  "scan_route (nblocks (2048 - 0) SCAN_BSIZE) = Serial
   \<and> reduce_route (nblocks (2048 - 0) SCAN_BSIZE) = Blocked
   \<and> pack_route (nblocks (2048 - 0) F_BSIZE) = Serial
   \<and> scan (\<lambda>_. 0::int) 0 0 2048 (-) (getA 0) 0 False False
      = scanSerial (\<lambda>_. 0::int) 0 0 2048 (-) (getA 0) 0 False False"
  using serial_routes[where e = 2048 and s = 0 and f = "(-)" and h = "getA 0"
      and m = "\<lambda>_. 0::int" and Out = 0 and z = 0 and inclusive = False and bk = False
      and g = "\<lambda>_. 0::int" and m' = "\<lambda>_. 0::int" and Out' = None and fm = "\<lambda>_. False"
      and Fl = 0 and f' = "\<lambda>_. 0::int"]
  by (simp add: nblocks_def SCAN_BSIZE_eq F_BSIZE_eq reduce_route_def pack_route_def)

text \<open>
  C6 as stated fails: a range of 2048 elements has 2 blocks of \<open>_SCAN_BSIZE\<close> and \<open>scan\<close>
  takes its serial routine on it, and a range of 4096 elements has 2 blocks of \<open>_F_BSIZE\<close>
  and \<open>pack\<close> takes its block-decomposed path on it.
\<close>

theorem route_thresholds_counterexample:
  "\<not> (scan_route (nblocks (2048 - 0) SCAN_BSIZE) = Serial \<longleftrightarrow> nblocks (2048 - 0) SCAN_BSIZE \<le> 1)
   \<and> \<not> (pack_route (nblocks (4096 - 0) F_BSIZE) = Serial \<longleftrightarrow> nblocks (4096 - 0) F_BSIZE \<le> 2)"
  by (simp add: nblocks_def SCAN_BSIZE_eq F_BSIZE_eq scan_route_def pack_route_def)




section \<open>writeMin\<close>









section \<open>Deduplication: one survivor per key\<close>









text \<open>
  The spec's case, keys \<open>[2, 2, 1, 2, 1]\<close>. With the iterations in index order the first
  entry of each key survives; with the first phase in decreasing order, every iteration
  having read its slot before any \<open>CAS\<close>, the \<open>CAS\<close> of the entries 2, 1 and 0 fail and the
  last entry of each key survives.
\<close>

lemma remDuplicates_example:
  "(case remDuplicates [0, 1, 2, 3, 4] (\<lambda>_. False) [0, 1, 2, 3, 4]
           (\<lambda>i. if i = 2 \<or> i = 4 then 1 else 2 :: 32 word) (\<lambda>_. UINT_E_MAX) 5 3 of
      Inl _ \<Rightarrow> False
    | Inr (ks, fs) \<Rightarrow> map ks [0, 1, 2, 3, 4] = [2, UINT_E_MAX, 1, UINT_E_MAX, UINT_E_MAX]
                     \<and> map fs [0, 1, 2] = [UINT_E_MAX, UINT_E_MAX, UINT_E_MAX])
   \<and> (case remDuplicates [4, 3, 2, 1, 0] (\<lambda>_. True) [2, 0, 4, 1, 3]
           (\<lambda>i. if i = 2 \<or> i = 4 then 1 else 2 :: 32 word) (\<lambda>_. UINT_E_MAX) 5 3 of
      Inl _ \<Rightarrow> False
    | Inr (ks, fs) \<Rightarrow> map ks [0, 1, 2, 3, 4] = [UINT_E_MAX, UINT_E_MAX, UINT_E_MAX, 2, 1]
                     \<and> map fs [0, 1, 2] = [UINT_E_MAX, UINT_E_MAX, UINT_E_MAX])"
  by (simp add: remDuplicates_def parallel_for_in_def CAS_def sizeof_uintE_def
      UINT_E_MAX_def Let_def unsigned_minus_1_eq_mask mask_eq_exp_minus_1)




end
